theory Spec2Isabelle
  imports Main "HOL-Library.Word" "HOL-Library.List_Lexorder" "HOL-Library.Char_ord"
begin

unbundle bit_operations_syntax

section \<open>Bytes, strings and buffers\<close>

text \<open>
  A Go \<^verbatim>\<open>string\<close> is an immutable sequence of bytes and is modelled as a
  \<^typ>\<open>string\<close> (a list of 8-bit characters); a Go \<^verbatim>\<open>[]byte\<close> is a mutable
  buffer and is modelled by the list of the bytes it holds. The conversions
  \<^verbatim>\<open>[]byte(s)\<close> and \<^verbatim>\<open>string(b)\<close> copy.
\<close>

type_synonym byte = "8 word"
type_synonym bytes = "byte list"

definition bytes_of :: "string \<Rightarrow> bytes" where
  "bytes_of s = map (\<lambda>c. of_nat (of_char c)) s"

definition string_of :: "bytes \<Rightarrow> string" where
  "string_of b = map (\<lambda>w. char_of (unat w)) b"

text \<open>\<^verbatim>\<open>zero\<close>: the loop \<^verbatim>\<open>for i := range b { b[i] = 0 }\<close>; the result is the
  content of the buffer afterwards.\<close>

primrec zero_bytes :: "bytes \<Rightarrow> bytes" where
  "zero_bytes [] = []"
| "zero_bytes (x # xs) = 0 # zero_bytes xs"

section \<open>The key-value store\<close>

text \<open>
  \<^verbatim>\<open>kv.data\<close> is a \<^verbatim>\<open>map[string][]byte\<close>. Every operation accesses the map
  under the store's lock, and is modelled here as one atomic step on a map from keys to
  the contents of their buffers: \<^verbatim>\<open>set\<close> stores a copy of the value, \<^verbatim>\<open>get\<close> and
  \<^verbatim>\<open>snapshot\<close> return copies. This is the store as calls that run one after the other
  see it. \<^verbatim>\<open>get\<close> makes its copy only after it has released the lock; what that means
  for a \<^verbatim>\<open>get\<close> that overlaps another call is the subject of the finer model below,
  in which the buffers are held in a memory.
\<close>

record kv =
  data :: "string \<rightharpoonup> bytes"

definition newKV :: kv where
  "newKV = \<lparr>data = Map.empty\<rparr>"

definition set_kv :: "kv \<Rightarrow> string \<Rightarrow> string \<Rightarrow> kv" where
  "set_kv k key val = k\<lparr>data := (data k)(key \<mapsto> bytes_of val)\<rparr>"

text \<open>A missing key reads as the nil slice, and \<^verbatim>\<open>string(nil)\<close> is the empty string.\<close>

definition get :: "kv \<Rightarrow> string \<Rightarrow> string \<times> bool" where
  "get k key =
     (case data k key of
        None \<Rightarrow> (string_of [], False)
      | Some v \<Rightarrow> (string_of v, True))"

text \<open>\<^verbatim>\<open>del\<close> overwrites the buffer held under the key with zeros, then deletes the
  entry.\<close>

definition del :: "kv \<Rightarrow> string \<Rightarrow> kv \<times> bool" where
  "del k key =
     (case data k key of
        None \<Rightarrow> (k, False)
      | Some v \<Rightarrow>
          (let zeroed = (data k)(key \<mapsto> zero_bytes v)
           in (k\<lparr>data := zeroed(key := None)\<rparr>, True)))"

definition snapshot :: "kv \<Rightarrow> (string \<rightharpoonup> string)" where
  "snapshot k = (\<lambda>key. map_option string_of (data k key))"

text \<open>\<^verbatim>\<open>replace\<close>: the first loop zeroes and deletes every entry of the map, the
  second stores a copy of every entry of \<open>inp\<close>.\<close>

definition replace :: "kv \<Rightarrow> (string \<rightharpoonup> string) \<Rightarrow> kv" where
  "replace k inp =
     (let zeroed = (\<lambda>key. map_option zero_bytes (data k key));
          cleared = zeroed |` (- dom zeroed)
      in k\<lparr>data := cleared ++ (\<lambda>key. map_option bytes_of (inp key))\<rparr>)"

subsection \<open>Histories of store operations\<close>

datatype op = Set string string | Del string | Replace "string \<rightharpoonup> string"

fun apply_op :: "kv \<Rightarrow> op \<Rightarrow> kv" where
  "apply_op k (Set key val) = set_kv k key val"
| "apply_op k (Del key) = fst (del k key)"
| "apply_op k (Replace inp) = replace k inp"

definition run :: "kv \<Rightarrow> op list \<Rightarrow> kv" where
  "run k ops = foldl apply_op k ops"

text \<open>What an operation writes for a key \<open>K\<close>: \<open>None\<close> when it leaves \<open>K\<close> as it
  is, \<open>Some None\<close> when it removes \<open>K\<close>, \<open>Some (Some v)\<close> when it stores \<open>v\<close> under
  \<open>K\<close>. \<open>last_write K ops\<close> is what the last operation of the history \<open>ops\<close> that
  writes for \<open>K\<close> writes, \<open>None\<close> when there is none.\<close>

fun writes :: "op \<Rightarrow> string \<Rightarrow> string option option" where
  "writes (Set key val) K = (if K = key then Some (Some val) else None)"
| "writes (Del key) K = (if K = key then Some None else None)"
| "writes (Replace inp) K = Some (inp K)"

fun last_write :: "string \<Rightarrow> op list \<Rightarrow> string option option" where
  "last_write K [] = None"
| "last_write K (x # xs) =
     (case last_write K xs of
        Some r \<Rightarrow> Some r
      | None \<Rightarrow> writes x K)"

subsection \<open>The buffers of the store in memory\<close>

text \<open>
  \<^verbatim>\<open>handle\<close> runs in one goroutine per connection and all goroutines share one store.
  The values of \<^verbatim>\<open>kv.data\<close> are slices: each refers to a buffer in memory, and a slice
  read from the map refers to the same buffer as the map's entry. In this finer model a
  buffer is named by its address, \<open>heap\<close> lists the contents of the buffers by address,
  and \<open>data_m\<close> lists the entries of the map, each key with the address of its buffer.
  No buffer is ever freed while a slice refers to it.
\<close>

type_synonym addr = nat

record kv_mem =
  data_m :: "(string \<times> addr) list"
  heap :: "bytes list"

definition newKV_mem :: kv_mem where
  "newKV_mem = \<lparr>data_m = [], heap = []\<rparr>"

text \<open>\<^verbatim>\<open>[]byte(val)\<close> makes a new buffer; \<^verbatim>\<open>zero(v)\<close> overwrites the buffer that
  \<open>v\<close> refers to; \<^verbatim>\<open>k.data[key] = v\<close> and \<^verbatim>\<open>delete(k.data, key)\<close> change the
  entries and no buffer.\<close>

definition alloc :: "kv_mem \<Rightarrow> bytes \<Rightarrow> kv_mem \<times> addr" where
  "alloc s b = (s\<lparr>heap := heap s @ [b]\<rparr>, length (heap s))"

definition zero_mem :: "kv_mem \<Rightarrow> addr \<Rightarrow> kv_mem" where
  "zero_mem s v = s\<lparr>heap := (heap s)[v := zero_bytes (heap s ! v)]\<rparr>"

definition store_entry :: "kv_mem \<Rightarrow> string \<Rightarrow> addr \<Rightarrow> kv_mem" where
  "store_entry s key v = s\<lparr>data_m := (key, v) # filter (\<lambda>e. fst e \<noteq> key) (data_m s)\<rparr>"

definition delete_entry :: "kv_mem \<Rightarrow> string \<Rightarrow> kv_mem" where
  "delete_entry s key = s\<lparr>data_m := filter (\<lambda>e. fst e \<noteq> key) (data_m s)\<rparr>"

text \<open>\<^verbatim>\<open>set\<close>, \<^verbatim>\<open>del\<close>, \<^verbatim>\<open>snapshot\<close> and \<^verbatim>\<open>replace\<close> hold the lock from
  their first statement to their last, and each is one step. \<open>replace_mem\<close> takes the
  entries of its argument in the order in which the second loop visits them.\<close>

definition set_mem :: "kv_mem \<Rightarrow> string \<Rightarrow> string \<Rightarrow> kv_mem" where
  "set_mem s key val = (let (s1, v) = alloc s (bytes_of val) in store_entry s1 key v)"

definition del_mem :: "kv_mem \<Rightarrow> string \<Rightarrow> kv_mem \<times> bool" where
  "del_mem s key =
     (case map_of (data_m s) key of
        None \<Rightarrow> (s, False)
      | Some v \<Rightarrow> (delete_entry (zero_mem s v) key, True))"

definition snapshot_mem :: "kv_mem \<Rightarrow> (string \<rightharpoonup> string)" where
  "snapshot_mem s = map_of (map (\<lambda>(key, v). (key, string_of (heap s ! v))) (data_m s))"

definition replace_mem :: "kv_mem \<Rightarrow> (string \<times> string) list \<Rightarrow> kv_mem" where
  "replace_mem s inp =
     (let s1 = fold (\<lambda>(key, v) s'. delete_entry (zero_mem s' v) key) (data_m s) s
      in fold (\<lambda>(key, val) s'. set_mem s' key val) inp s1)"

text \<open>
  \<^verbatim>\<open>get\<close> is two steps. \<open>get_lookup\<close> is \<^verbatim>\<open>v, ok := k.data[key]\<close>, between
  \<^verbatim>\<open>RLock\<close> and \<^verbatim>\<open>RUnlock\<close>: \<open>v\<close> is the slice of the entry (\<open>None\<close> for the nil
  slice of a missing key). \<open>get_return\<close> is \<^verbatim>\<open>return string(v), ok\<close>, which reads the
  buffer of \<open>v\<close> after the lock has been released. In \<open>get_mem\<close> the second step
  follows the first at once. In \<open>get_overlapped\<close> other goroutines take the lock in
  between, and \<open>others\<close> is what their calls do to the store.
\<close>

definition get_lookup :: "kv_mem \<Rightarrow> string \<Rightarrow> addr option \<times> bool" where
  "get_lookup s key =
     (case map_of (data_m s) key of
        None \<Rightarrow> (None, False)
      | Some v \<Rightarrow> (Some v, True))"

definition get_return :: "kv_mem \<Rightarrow> addr option \<times> bool \<Rightarrow> string \<times> bool" where
  "get_return s r =
     (case fst r of
        None \<Rightarrow> (string_of [], snd r)
      | Some v \<Rightarrow> (string_of (heap s ! v), snd r))"

definition get_mem :: "kv_mem \<Rightarrow> string \<Rightarrow> string \<times> bool" where
  "get_mem s key = get_return s (get_lookup s key)"

definition get_overlapped :: "kv_mem \<Rightarrow> string \<Rightarrow> (kv_mem \<Rightarrow> kv_mem) \<Rightarrow> string \<times> bool" where
  "get_overlapped s key others = get_return (others s) (get_lookup s key)"

text \<open>\<open>store_of\<close> gives the store of the first model that a memory represents, and
  \<open>wf_mem\<close> says that no two entries share a buffer and every entry refers to a buffer
  of the memory.\<close>

definition store_of :: "kv_mem \<Rightarrow> kv" where
  "store_of s = \<lparr>data = (\<lambda>key. map_option (\<lambda>v. heap s ! v) (map_of (data_m s) key))\<rparr>"

definition wf_mem :: "kv_mem \<Rightarrow> bool" where
  "wf_mem s = (distinct (map snd (data_m s)) \<and> (\<forall>e \<in> set (data_m s). snd e < length (heap s)))"

section \<open>The standard library\<close>

text \<open>
  The program calls \<^verbatim>\<open>crypto/hmac\<close> with \<^verbatim>\<open>crypto/sha512\<close>, \<^verbatim>\<open>crypto/aes\<close>,
  \<^verbatim>\<open>crypto/cipher\<close> and \<^verbatim>\<open>encoding/json\<close>. Their code is not part of the
  repository, so they are parameters of the model: a record \<open>L\<close> of functions that
  every function of the program that calls the library takes as its first argument. A
  library call that can return an error returns an option, \<open>None\<close> for the error.

  \<open>error\<close> lists the errors the program returns by where they arise: \<open>InvalidFile\<close>
  is the program's own \<^verbatim>\<open>fmt.Errorf("invalid file")\<close>; \<open>IOError\<close> comes from
  \<^verbatim>\<open>os.ReadFile\<close>, \<^verbatim>\<open>os.OpenFile\<close> and \<^verbatim>\<open>Write\<close>; \<open>CipherError\<close> from
  \<^verbatim>\<open>aes.NewCipher\<close> and \<^verbatim>\<open>cipher.NewGCM\<close>; \<open>AuthError\<close> from \<^verbatim>\<open>g.Open\<close>;
  \<open>FormatError\<close> from \<^verbatim>\<open>json.Unmarshal\<close>; \<open>MarshalError\<close> from
  \<^verbatim>\<open>json.Marshal\<close>; \<open>RandError\<close> from \<^verbatim>\<open>rand.Read\<close>. \<open>Panic\<close> is a run-time
  panic of the program itself (an index or a slice bound out of range).
\<close>

datatype error =
    IOError | InvalidFile | CipherError | AuthError | FormatError
  | MarshalError | RandError | Panic

text \<open>The AEAD that \<^verbatim>\<open>cipher.NewGCM\<close> returns: its nonce size, \<^verbatim>\<open>Seal(nil, nonce,
  plaintext, nil)\<close> and \<^verbatim>\<open>Open(nil, nonce, ciphertext, nil)\<close>.\<close>

record aead =
  gcm_NonceSize :: nat
  gcm_Seal :: "bytes \<Rightarrow> bytes \<Rightarrow> bytes"
  gcm_Open :: "bytes \<Rightarrow> bytes \<Rightarrow> bytes option"

record 'c stdlib =
  hmac_sha512 :: "bytes \<Rightarrow> bytes \<Rightarrow> bytes"
  aes_NewCipher :: "bytes \<Rightarrow> 'c option"
  cipher_NewGCM :: "'c \<Rightarrow> aead option"
  json_Marshal :: "(string \<rightharpoonup> string) \<Rightarrow> bytes option"
  json_Unmarshal :: "bytes \<Rightarrow> (string \<rightharpoonup> string) option"

subsection \<open>Machine integers\<close>

text \<open>
  A Go \<^verbatim>\<open>int\<close> is taken to be 64 bits wide (as on amd64 and arm64) and is modelled
  as an \<^typ>\<open>int\<close> between \<open>- 2 ^ 63\<close> and \<open>2 ^ 63 - 1\<close>. \<open>wrap64\<close> is the
  wrap-around of an arithmetic result, \<open>go_quot\<close> is Go's \<^verbatim>\<open>/\<close>, which truncates
  toward zero.
\<close>

definition wrap64 :: "int \<Rightarrow> int" where
  "wrap64 x = (x + 2 ^ 63) mod 2 ^ 64 - 2 ^ 63"

definition go_quot :: "int \<Rightarrow> int \<Rightarrow> int" where
  "go_quot a b = (if (a < 0) = (b < 0) then \<bar>a\<bar> div \<bar>b\<bar> else - (\<bar>a\<bar> div \<bar>b\<bar>))"

section \<open>Key derivation\<close>

text \<open>\<^verbatim>\<open>hLen := sha512.Size\<close>, and \<^verbatim>\<open>hmacSHA512\<close>, which feeds \<open>data\<close> to an HMAC
  keyed with \<open>key\<close> and returns its sum.\<close>

definition hLen :: int where
  "hLen = 64"

definition hmacSHA512 :: "'c stdlib \<Rightarrow> bytes \<Rightarrow> bytes \<Rightarrow> bytes" where
  "hmacSHA512 L key d = hmac_sha512 L key d"

text \<open>\<^verbatim>\<open>[]byte{byte(i >> 24), byte(i >> 16), byte(i >> 8), byte(i)}\<close>: \<^verbatim>\<open>>>\<close> on
  an \<^verbatim>\<open>int\<close> is the arithmetic shift, and \<^verbatim>\<open>byte(x)\<close> keeps the low eight bits.\<close>

definition be32 :: "int \<Rightarrow> bytes" where
  "be32 i = [word_of_int (i div 2 ^ 24), word_of_int (i div 2 ^ 16),
             word_of_int (i div 2 ^ 8), word_of_int i]"

text \<open>\<^verbatim>\<open>copy(dst, src)\<close> overwrites the first \<open>min (len dst) (len src)\<close> bytes of
  \<open>dst\<close>; the result is the content of \<open>dst\<close> afterwards.\<close>

definition copy_bytes :: "bytes \<Rightarrow> bytes \<Rightarrow> bytes" where
  "copy_bytes dst src = take (length dst) src @ drop (length src) dst"

text \<open>\<^verbatim>\<open>for k := range t { t[k] ^= u[k] }\<close>: the index \<open>u[k]\<close> panics when \<open>u\<close> is
  shorter than \<open>t\<close>.\<close>

fun xor_into :: "bytes \<Rightarrow> bytes \<Rightarrow> error + bytes" where
  "xor_into [] u = Inr []"
| "xor_into (x # t) [] = Inl Panic"
| "xor_into (x # t) (y # u) =
     (case xor_into t u of Inl e \<Rightarrow> Inl e | Inr t' \<Rightarrow> Inr ((x XOR y) # t'))"

text \<open>The inner loop \<^verbatim>\<open>for j := 1; j < iter; j++\<close>, from the values of \<open>j\<close>, \<open>u\<close>
  and \<open>t\<close> at its head to the value of \<open>t\<close> when it ends.\<close>

function iter_loop :: "'c stdlib \<Rightarrow> bytes \<Rightarrow> int \<Rightarrow> int \<Rightarrow> bytes \<Rightarrow> bytes \<Rightarrow> error + bytes" where
  "iter_loop L password j iter u t =
     (if j < iter then
        (let u' = hmacSHA512 L password u in
         case xor_into t u' of
           Inl e \<Rightarrow> Inl e
         | Inr t' \<Rightarrow> iter_loop L password (j + 1) iter u' t')
      else Inr t)"
  by pat_completeness auto
termination
  by (relation "measure (\<lambda>(L, password, j, iter, u, t). nat (iter - j))") auto

text \<open>The outer loop \<^verbatim>\<open>for i := 1; i <= l; i++\<close>, from \<open>i\<close> and \<open>dk\<close> at its head
  to \<open>dk\<close> when it ends.\<close>

function block_loop ::
  "'c stdlib \<Rightarrow> bytes \<Rightarrow> bytes \<Rightarrow> int \<Rightarrow> int \<Rightarrow> int \<Rightarrow> bytes \<Rightarrow> error + bytes" where
  "block_loop L password salt iter i l dk =
     (if i \<le> l then
        (let block = salt @ be32 i;
             u = hmacSHA512 L password block;
             t = copy_bytes (replicate (nat hLen) 0) u
         in case iter_loop L password 1 iter u t of
              Inl e \<Rightarrow> Inl e
            | Inr t' \<Rightarrow> block_loop L password salt iter (i + 1) l (dk @ t'))
      else Inr dk)"
  by pat_completeness auto
termination
  by (relation "measure (\<lambda>(L, password, salt, iter, i, l, dk). nat (l + 1 - i))") auto

text \<open>
  \<^verbatim>\<open>l := (dkLen + hLen - 1) / hLen\<close> is computed in \<^verbatim>\<open>int\<close>. The slice expression
  \<^verbatim>\<open>dk[:dkLen]\<close> panics when \<open>dkLen\<close> is negative or exceeds the capacity of \<open>dk\<close>.
  Whenever \<open>dkLen\<close> exceeds the length of \<open>dk\<close> the loop has not run (\<open>64 * l\<close> is
  at least \<open>dkLen\<close> otherwise), \<open>dk\<close> is the nil slice and its capacity is 0, so the
  bound is written here on the length.
\<close>

definition pbkdf2sha512 :: "'c stdlib \<Rightarrow> bytes \<Rightarrow> bytes \<Rightarrow> int \<Rightarrow> int \<Rightarrow> error + bytes" where
  "pbkdf2sha512 L password salt iter dkLen =
     (let l = go_quot (wrap64 (wrap64 (dkLen + hLen) - 1)) hLen in
      case block_loop L password salt iter 1 l [] of
        Inl e \<Rightarrow> Inl e
      | Inr dk \<Rightarrow>
          (if dkLen < 0 \<or> int (length dk) < dkLen then Inl Panic
           else Inr (take (nat dkLen) dk)))"

definition deriveKey :: "'c stdlib \<Rightarrow> bytes \<Rightarrow> bytes \<Rightarrow> error + bytes" where
  "deriveKey L pass salt = pbkdf2sha512 L pass salt 100000 32"

section \<open>PBKDF2 as RFC 8018 defines it\<close>

text \<open>
  The reference definition, written from the words of the standard (RFC 8018, section
  5.2) and not from the code, for a pseudorandom function \<open>h\<close> of output length
  \<open>hLen = 64\<close>, password \<open>P\<close>, salt \<open>S\<close>, iteration count \<open>c\<close> and intended
  length \<open>dkLen\<close>:

  \<^enum> if \<open>dkLen > (2\<^sup>3\<^sup>2 - 1) * hLen\<close>, output \<open>derived key too long\<close> and stop;
  \<^enum> let \<open>l\<close> be the number of \<open>hLen\<close>-byte blocks in the derived key, rounding up;
  \<^enum> for each block, \<open>T\<^sub>i = U\<^sub>1 xor U\<^sub>2 xor ... xor U\<^sub>c\<close> with
    \<open>U\<^sub>1 = h P (S || INT_32BE i)\<close> and \<open>U\<^sub>j = h P U\<^sub>j\<^sub>-\<^sub>1\<close>;
  \<^enum> the derived key is the first \<open>dkLen\<close> bytes of \<open>T\<^sub>1 || T\<^sub>2 || ... || T\<^sub>l\<close>.

  \<open>INT_32BE i\<close> is the four-byte encoding of \<open>i\<close>, most significant byte first; step 1
  keeps every block index below \<open>2\<^sup>3\<^sup>2\<close>. \<open>rfc_DK\<close> is steps 2 to 4 and
  \<open>rfc_pbkdf2\<close> is the whole function, \<open>None\<close> for \<open>derived key too long\<close>.
\<close>

definition INT_32BE :: "nat \<Rightarrow> bytes" where
  "INT_32BE i = [of_nat (i div 2 ^ 24), of_nat (i div 2 ^ 16), of_nat (i div 2 ^ 8), of_nat i]"

definition xor_bytes :: "bytes \<Rightarrow> bytes \<Rightarrow> bytes" where
  "xor_bytes a b = map2 (XOR) a b"

fun rfc_U :: "(bytes \<Rightarrow> bytes \<Rightarrow> bytes) \<Rightarrow> bytes \<Rightarrow> bytes \<Rightarrow> nat \<Rightarrow> nat \<Rightarrow> bytes" where
  "rfc_U h P S i 0 = []"
| "rfc_U h P S i (Suc 0) = h P (S @ INT_32BE i)"
| "rfc_U h P S i (Suc (Suc j)) = h P (rfc_U h P S i (Suc j))"

fun rfc_T :: "(bytes \<Rightarrow> bytes \<Rightarrow> bytes) \<Rightarrow> bytes \<Rightarrow> bytes \<Rightarrow> nat \<Rightarrow> nat \<Rightarrow> bytes" where
  "rfc_T h P S 0 i = []"
| "rfc_T h P S (Suc 0) i = rfc_U h P S i (Suc 0)"
| "rfc_T h P S (Suc (Suc c)) i =
     xor_bytes (rfc_T h P S (Suc c) i) (rfc_U h P S i (Suc (Suc c)))"

definition rfc_blocks :: "nat \<Rightarrow> nat" where
  "rfc_blocks dkLen = (if dkLen mod 64 = 0 then dkLen div 64 else dkLen div 64 + 1)"

definition rfc_DK :: "(bytes \<Rightarrow> bytes \<Rightarrow> bytes) \<Rightarrow> bytes \<Rightarrow> bytes \<Rightarrow> nat \<Rightarrow> nat \<Rightarrow> bytes" where
  "rfc_DK h P S c dkLen =
     take dkLen (concat (map (rfc_T h P S c) [1 ..< Suc (rfc_blocks dkLen)]))"

definition rfc_pbkdf2 ::
  "(bytes \<Rightarrow> bytes \<Rightarrow> bytes) \<Rightarrow> bytes \<Rightarrow> bytes \<Rightarrow> nat \<Rightarrow> nat \<Rightarrow> bytes option" where
  "rfc_pbkdf2 h P S c dkLen =
     (if (2 ^ 32 - 1) * 64 < dkLen then None else Some (rfc_DK h P S c dkLen))"

section \<open>Files and randomness\<close>

text \<open>
  The file system maps a path to a regular file with its content or to a directory. What
  the operating system and the random source decide is given by an environment \<open>E\<close>:
  the bytes \<^verbatim>\<open>crypto/rand\<close> delivers (by position in its stream), which call of
  \<^verbatim>\<open>rand.Read\<close> fails, whether reading or opening fails for a reason other than the
  path, and for each \<^verbatim>\<open>Write\<close> whether it fails and after how many bytes.

  \<^verbatim>\<open>os.OpenFile(file, O_CREATE|O_WRONLY|O_TRUNC, 0600)\<close> fails on a directory and
  otherwise leaves an empty regular file; the writes that follow append to it.
\<close>

datatype node = File bytes | Dir

type_synonym fs = "string \<rightharpoonup> node"

record env =
  rand_bytes :: "nat \<Rightarrow> byte"
  rand_fails :: "nat \<Rightarrow> bool"
  read_fails :: bool
  open_fails :: bool
  write_fails :: "nat \<Rightarrow> nat option"

definition rand_Read :: "env \<Rightarrow> nat \<Rightarrow> nat \<Rightarrow> bytes \<Rightarrow> bytes option" where
  "rand_Read E call off b =
     (if rand_fails E call then None
      else Some (map (rand_bytes E) [off ..< off + length b]))"

definition os_ReadFile :: "env \<Rightarrow> fs \<Rightarrow> string \<Rightarrow> bytes option" where
  "os_ReadFile E fs file =
     (if read_fails E then None
      else case fs file of Some (File b) \<Rightarrow> Some b | Some Dir \<Rightarrow> None | None \<Rightarrow> None)"

definition os_OpenFile :: "env \<Rightarrow> fs \<Rightarrow> string \<Rightarrow> fs option" where
  "os_OpenFile E fs file =
     (if open_fails E then None
      else case fs file of Some Dir \<Rightarrow> None | _ \<Rightarrow> Some (fs(file \<mapsto> File [])))"

definition file_content :: "fs \<Rightarrow> string \<Rightarrow> bytes" where
  "file_content fs file = (case fs file of Some (File b) \<Rightarrow> b | _ \<Rightarrow> [])"

definition file_Write :: "env \<Rightarrow> nat \<Rightarrow> fs \<Rightarrow> string \<Rightarrow> bytes \<Rightarrow> fs \<times> bool" where
  "file_Write E call fs file b =
     (case write_fails E call of
        None \<Rightarrow> (fs(file \<mapsto> File (file_content fs file @ b)), True)
      | Some m \<Rightarrow> (fs(file \<mapsto> File (file_content fs file @ take m b)), False))"

section \<open>Saving and loading\<close>

text \<open>
  \<^verbatim>\<open>saveToFile\<close> and \<^verbatim>\<open>loadFromFile\<close> statement by statement. Beside the error
  returned (\<open>None\<close> for \<^verbatim>\<open>nil\<close>) and the file system or store afterwards, the result
  records what the two local buffers hold when the function returns: the serialized
  or decrypted plaintext and the derived key, \<open>None\<close> for a buffer not yet made on that
  path. \<^verbatim>\<open>rand.Read\<close> is called first for the salt and then for the nonce, so the salt
  is bytes 0 to 15 of the random stream and the nonce starts at byte 16.
\<close>

record save_out =
  s_err :: "error option"
  s_fs :: fs
  s_blob :: "bytes option"
  s_key :: "bytes option"

definition saveToFile :: "'c stdlib \<Rightarrow> env \<Rightarrow> fs \<Rightarrow> kv \<Rightarrow> string \<Rightarrow> string \<Rightarrow> save_out" where
  "saveToFile L E fs store file pass =
     (let state = snapshot store in
      case json_Marshal L state of
        None \<Rightarrow> \<lparr>s_err = Some MarshalError, s_fs = fs, s_blob = None, s_key = None\<rparr>
      | Some blob \<Rightarrow>
      case rand_Read E 0 0 (replicate 16 0) of
        None \<Rightarrow> \<lparr>s_err = Some RandError, s_fs = fs, s_blob = Some blob, s_key = None\<rparr>
      | Some salt \<Rightarrow>
      case deriveKey L (bytes_of pass) salt of
        Inl e \<Rightarrow> \<lparr>s_err = Some e, s_fs = fs, s_blob = Some blob, s_key = None\<rparr>
      | Inr key \<Rightarrow>
      case aes_NewCipher L key of
        None \<Rightarrow> \<lparr>s_err = Some CipherError, s_fs = fs, s_blob = Some blob, s_key = Some key\<rparr>
      | Some c \<Rightarrow>
      case cipher_NewGCM L c of
        None \<Rightarrow> \<lparr>s_err = Some CipherError, s_fs = fs, s_blob = Some blob, s_key = Some key\<rparr>
      | Some g \<Rightarrow>
      case rand_Read E 1 16 (replicate (gcm_NonceSize g) 0) of
        None \<Rightarrow> \<lparr>s_err = Some RandError, s_fs = fs, s_blob = Some blob, s_key = Some key\<rparr>
      | Some nonce \<Rightarrow>
      let ct = gcm_Seal g nonce blob in
      case os_OpenFile E fs file of
        None \<Rightarrow> \<lparr>s_err = Some IOError, s_fs = fs, s_blob = Some blob, s_key = Some key\<rparr>
      | Some fs0 \<Rightarrow>
      let (fs1, ok1) = file_Write E 0 fs0 file salt in
      if \<not> ok1 then
        \<lparr>s_err = Some IOError, s_fs = fs1, s_blob = Some blob, s_key = Some key\<rparr>
      else
      let (fs2, ok2) = file_Write E 1 fs1 file nonce in
      if \<not> ok2 then
        \<lparr>s_err = Some IOError, s_fs = fs2, s_blob = Some blob, s_key = Some key\<rparr>
      else
      let (fs3, ok3) = file_Write E 2 fs2 file ct in
      if \<not> ok3 then
        \<lparr>s_err = Some IOError, s_fs = fs3, s_blob = Some blob, s_key = Some key\<rparr>
      else
        \<lparr>s_err = None, s_fs = fs3, s_blob = Some (zero_bytes blob),
         s_key = Some (zero_bytes key)\<rparr>)"

record load_out =
  l_err :: "error option"
  l_store :: kv
  l_pt :: "bytes option"
  l_key :: "bytes option"

text \<open>The slice expression \<^verbatim>\<open>xs[lo:hi]\<close> for \<open>lo \<le> hi \<le> len xs\<close>.\<close>

definition go_slice :: "'a list \<Rightarrow> nat \<Rightarrow> nat \<Rightarrow> 'a list" where
  "go_slice xs lo hi = take (hi - lo) (drop lo xs)"

definition loadFromFile :: "'c stdlib \<Rightarrow> env \<Rightarrow> fs \<Rightarrow> kv \<Rightarrow> string \<Rightarrow> string \<Rightarrow> load_out" where
  "loadFromFile L E fs store file pass =
     (case os_ReadFile E fs file of
        None \<Rightarrow> \<lparr>l_err = Some IOError, l_store = store, l_pt = None, l_key = None\<rparr>
      | Some d \<Rightarrow>
      if length d < 28 then
        \<lparr>l_err = Some InvalidFile, l_store = store, l_pt = None, l_key = None\<rparr>
      else
      let salt = go_slice d 0 16; nonce = go_slice d 16 28; ct = drop 28 d in
      case deriveKey L (bytes_of pass) salt of
        Inl e \<Rightarrow> \<lparr>l_err = Some e, l_store = store, l_pt = None, l_key = None\<rparr>
      | Inr key \<Rightarrow>
      case aes_NewCipher L key of
        None \<Rightarrow> \<lparr>l_err = Some CipherError, l_store = store, l_pt = None, l_key = Some key\<rparr>
      | Some c \<Rightarrow>
      case cipher_NewGCM L c of
        None \<Rightarrow> \<lparr>l_err = Some CipherError, l_store = store, l_pt = None, l_key = Some key\<rparr>
      | Some g \<Rightarrow>
      case gcm_Open g nonce ct of
        None \<Rightarrow> \<lparr>l_err = Some AuthError, l_store = store, l_pt = None, l_key = Some key\<rparr>
      | Some pt \<Rightarrow>
      case json_Unmarshal L pt of
        None \<Rightarrow> \<lparr>l_err = Some FormatError, l_store = store, l_pt = Some pt, l_key = Some key\<rparr>
      | Some m \<Rightarrow>
          \<lparr>l_err = None, l_store = replace store m, l_pt = Some (zero_bytes pt),
           l_key = Some (zero_bytes key)\<rparr>)"

section \<open>The line protocol\<close>

text \<open>
  \<^verbatim>\<open>handle\<close> reads lines and runs one command per line; \<open>handle_line\<close> below is
  the body of its loop for one line (including its final newline). It uses four functions
  of the package \<^verbatim>\<open>strings\<close>, modelled on bytes as follows.

  White space is what \<^verbatim>\<open>unicode.IsSpace\<close> accepts: the code points U+0009 to U+000D,
  U+0020, U+0085, U+00A0, U+1680, U+2000 to U+200A, U+2028, U+2029, U+202F, U+205F and
  U+3000. \<open>space_runes\<close> lists their UTF-8 encodings. Each starts with a byte that never
  continues a UTF-8 sequence, so an encoding found at some position of a string always
  is a rune of the string, and scanning bytes finds the same white space as decoding runes.
  \<open>space_width s\<close> is the length of the white-space rune at the head of \<open>s\<close> (0 when
  there is none), \<open>space_width_end s\<close> that of the one at its end.
\<close>

definition space_runes :: "string list" where
  "space_runes =
     [[CHR 0x09], [CHR 0x0A], [CHR 0x0B], [CHR 0x0C], [CHR 0x0D], [CHR 0x20],
      [CHR 0xC2, CHR 0x85], [CHR 0xC2, CHR 0xA0],
      [CHR 0xE1, CHR 0x9A, CHR 0x80],
      [CHR 0xE2, CHR 0x80, CHR 0x80], [CHR 0xE2, CHR 0x80, CHR 0x81],
      [CHR 0xE2, CHR 0x80, CHR 0x82], [CHR 0xE2, CHR 0x80, CHR 0x83],
      [CHR 0xE2, CHR 0x80, CHR 0x84], [CHR 0xE2, CHR 0x80, CHR 0x85],
      [CHR 0xE2, CHR 0x80, CHR 0x86], [CHR 0xE2, CHR 0x80, CHR 0x87],
      [CHR 0xE2, CHR 0x80, CHR 0x88], [CHR 0xE2, CHR 0x80, CHR 0x89],
      [CHR 0xE2, CHR 0x80, CHR 0x8A],
      [CHR 0xE2, CHR 0x80, CHR 0xA8], [CHR 0xE2, CHR 0x80, CHR 0xA9],
      [CHR 0xE2, CHR 0x80, CHR 0xAF],
      [CHR 0xE2, CHR 0x81, CHR 0x9F],
      [CHR 0xE3, CHR 0x80, CHR 0x80]]"

definition space_width :: "string \<Rightarrow> nat" where
  "space_width s =
     (case find (\<lambda>p. take (length p) s = p) space_runes of
        None \<Rightarrow> 0
      | Some p \<Rightarrow> length p)"

definition space_width_end :: "string \<Rightarrow> nat" where
  "space_width_end s =
     (case find (\<lambda>p. length p \<le> length s \<and> drop (length s - length p) s = p) space_runes of
        None \<Rightarrow> 0
      | Some p \<Rightarrow> length p)"

text \<open>\<^verbatim>\<open>strings.TrimSpace\<close> removes all leading and all trailing white space.\<close>

function trim_left :: "string \<Rightarrow> string" where
  "trim_left [] = []"
| "trim_left (c # cs) =
     (let n = space_width (c # cs) in
      if n = 0 then c # cs else trim_left (drop n (c # cs)))"
  by pat_completeness auto
termination
  by (relation "measure length") auto

function trim_right :: "string \<Rightarrow> string" where
  "trim_right [] = []"
| "trim_right (c # cs) =
     (let n = space_width_end (c # cs) in
      if n = 0 then c # cs else trim_right (take (length (c # cs) - n) (c # cs)))"
  by pat_completeness auto
termination
  by (relation "measure length") auto

definition TrimSpace :: "string \<Rightarrow> string" where
  "TrimSpace s = trim_right (trim_left s)"

text \<open>\<^verbatim>\<open>strings.Fields\<close> splits around each run of white space; it returns no empty
  field. \<open>fields_from cur s\<close> scans \<open>s\<close> with \<open>cur\<close> the field read so far.\<close>

function fields_from :: "string \<Rightarrow> string \<Rightarrow> string list" where
  "fields_from cur [] = (if cur = [] then [] else [cur])"
| "fields_from cur (c # cs) =
     (let n = space_width (c # cs) in
      if n = 0 then fields_from (cur @ [c]) cs
      else (if cur = [] then [] else [cur]) @ fields_from [] (drop n (c # cs)))"
  by pat_completeness auto
termination
  by (relation "measure (\<lambda>(cur, s). length s)") auto

definition Fields :: "string \<Rightarrow> string list" where
  "Fields s = fields_from [] s"

fun Join :: "string list \<Rightarrow> string \<Rightarrow> string" where
  "Join [] sep = []"
| "Join [x] sep = x"
| "Join (x # y # ys) sep = x @ sep @ Join (y # ys) sep"

text \<open>
  \<^verbatim>\<open>strings.ToUpper\<close> maps every rune to upper case. \<open>handle\<close> only compares its
  result with ASCII words, and the runes whose upper case is an ASCII letter are the
  ASCII letters, U+017F (to \<open>S\<close>) and U+0131 (to \<open>I\<close>); \<open>ToUpper\<close> below maps these
  and leaves every other byte as it is, so it agrees with \<^verbatim>\<open>strings.ToUpper\<close> on whether
  the result is a given ASCII word.
\<close>

definition upper_ascii :: "char \<Rightarrow> char" where
  "upper_ascii c =
     (if 97 \<le> (of_char c :: nat) \<and> (of_char c :: nat) \<le> 122
      then Char (digit0 c) (digit1 c) (digit2 c) (digit3 c) (digit4 c) False (digit6 c) (digit7 c)
      else c)"

fun ToUpper :: "string \<Rightarrow> string" where
  "ToUpper [] = []"
| "ToUpper [c] = [upper_ascii c]"
| "ToUpper (c # d # cs) =
     (if c = CHR 0xC5 \<and> d = CHR 0xBF then CHR ''S'' # ToUpper cs
      else if c = CHR 0xC4 \<and> d = CHR 0xB1 then CHR ''I'' # ToUpper cs
      else upper_ascii c # ToUpper (d # cs))"

text \<open>\<^verbatim>\<open>fmt.Fprintln(c, s)\<close> writes \<open>s\<close> and a newline to the connection.\<close>

definition println :: "string \<Rightarrow> string" where
  "println s = s @ [CHR 0x0A]"

text \<open>
  One line: the file system and store afterwards and what was written to the connection
  (nothing for an empty line). A panic inside \<open>saveToFile\<close> or \<open>loadFromFile\<close> is
  not an error they return and ends the run.
\<close>

definition handle_line ::
  "'c stdlib \<Rightarrow> env \<Rightarrow> fs \<times> kv \<Rightarrow> string \<Rightarrow> error + (fs \<times> kv) \<times> string" where
  "handle_line L E st line =
     (let fs = fst st; store = snd st;
          cmd = Fields (TrimSpace line) in
      if length cmd = 0 then Inr (st, [])
      else
      let verb = ToUpper (cmd ! 0) in
      if verb = ''SET'' then
        (if length cmd < 3 then Inr (st, println ''ERR'')
         else
           let key = cmd ! 1; val = Join (drop 2 cmd) '' '' in
           Inr ((fs, set_kv store key val), println ''OK''))
      else if verb = ''GET'' then
        (if length cmd \<noteq> 2 then Inr (st, println ''ERR'')
         else
           let (v, ok) = get store (cmd ! 1) in
           if ok then Inr (st, println v) else Inr (st, println ''NIL''))
      else if verb = ''DEL'' then
        (if length cmd \<noteq> 2 then Inr (st, println ''ERR'')
         else
           let (store', found) = del store (cmd ! 1) in
           if found then Inr ((fs, store'), println ''OK'')
           else Inr ((fs, store'), println ''NIL''))
      else if verb = ''SAVE'' then
        (if length cmd \<noteq> 3 then Inr (st, println ''ERR'')
         else
           let out = saveToFile L E fs store (cmd ! 1) (cmd ! 2) in
           if s_err out = Some Panic then Inl Panic
           else if s_err out \<noteq> None then Inr ((s_fs out, store), println ''ERR'')
           else Inr ((s_fs out, store), println ''OK''))
      else if verb = ''LOAD'' then
        (if length cmd \<noteq> 3 then Inr (st, println ''ERR'')
         else
           let out = loadFromFile L E fs store (cmd ! 1) (cmd ! 2) in
           if l_err out = Some Panic then Inl Panic
           else if l_err out \<noteq> None then Inr ((fs, l_store out), println ''ERR'')
           else Inr ((fs, l_store out), println ''OK''))
      else Inr (st, println ''ERR''))"

section \<open>Lines as words and white space\<close>

text \<open>
  To say what the words of a line are without running \<open>Fields\<close>: a word is a non-empty
  string with no white space at any position, \<open>is_ws s\<close> says that \<open>s\<close> is white space
  only, and \<open>layout\<close> writes a line from its words, each followed by the white space after
  it; that white space is empty at most after the last word (\<open>well_spaced\<close>).
  \<open>utf8_cont\<close> are the bytes that continue a UTF-8 sequence, \<open>rune_len\<close> is the
  length of a white-space rune by its first byte, and \<open>word_split\<close> cuts a string
  after its first word.
\<close>

definition utf8_cont :: "char \<Rightarrow> bool" where
  "utf8_cont c = (128 \<le> (of_char c :: nat) \<and> (of_char c :: nat) \<le> 191)"

definition rune_len :: "char \<Rightarrow> nat" where
  "rune_len c = (if (of_char c :: nat) < 128 then 1 else if c = CHR 0xC2 then 2 else 3)"

fun no_space :: "string \<Rightarrow> bool" where
  "no_space [] = True"
| "no_space (c # cs) = (space_width (c # cs) = 0 \<and> no_space cs)"

definition is_word :: "string \<Rightarrow> bool" where
  "is_word w = (w \<noteq> [] \<and> no_space w)"

definition is_ws :: "string \<Rightarrow> bool" where
  "is_ws s = (trim_left s = [])"

fun layout :: "(string \<times> string) list \<Rightarrow> string" where
  "layout [] = []"
| "layout ((w, s) # r) = w @ s @ layout r"

fun well_spaced :: "(string \<times> string) list \<Rightarrow> bool" where
  "well_spaced [] = True"
| "well_spaced ((w, s) # r) = (is_word w \<and> is_ws s \<and> (s = [] \<longrightarrow> r = []) \<and> well_spaced r)"

fun word_split :: "string \<Rightarrow> string \<times> string" where
  "word_split [] = ([], [])"
| "word_split (c # cs) =
     (if space_width (c # cs) = 0 then (c # fst (word_split cs), snd (word_split cs))
      else ([], c # cs))"

section \<open>Library contracts\<close>

text \<open>
  What the theorems below assume of the library where they need it: the AEAD of
  \<^verbatim>\<open>cipher.NewGCM\<close> has the standard nonce size 12, its \<^verbatim>\<open>Open\<close> returns what
  \<^verbatim>\<open>Seal\<close> was given under the same nonce, and \<open>json_reproduces L m\<close>: unmarshalling
  what \<^verbatim>\<open>json.Marshal\<close> makes of the mapping \<open>m\<close> gives \<open>m\<close> back. HMAC-SHA512
  returning 64 bytes is written out where it is assumed.
\<close>

definition gcm_nonce12 :: "'c stdlib \<Rightarrow> bool" where
  "gcm_nonce12 L = (\<forall>c g. cipher_NewGCM L c = Some g \<longrightarrow> gcm_NonceSize g = 12)"

definition gcm_opens_sealed :: "'c stdlib \<Rightarrow> bool" where
  "gcm_opens_sealed L =
     (\<forall>c g nonce pt. cipher_NewGCM L c = Some g \<longrightarrow>
        gcm_Open g nonce (gcm_Seal g nonce pt) = Some pt)"

definition json_reproduces :: "'c stdlib \<Rightarrow> (string \<rightharpoonup> string) \<Rightarrow> bool" where
  "json_reproduces L m =
     (\<forall>blob. json_Marshal L m = Some blob \<longrightarrow> json_Unmarshal L blob = Some m)"

section \<open>A concrete library\<close>

text \<open>
  A small library and environment that meet the contracts, to run the program on
  concrete inputs. \<open>demo_hmac\<close> returns 64 bytes, \<open>demo_aead\<close> appends a 16-byte tag
  made from the key and opens only what carries that tag, and nothing in \<open>demo_env\<close>
  fails.

  \<^verbatim>\<open>encoding/json\<close> encodes a string as a JSON string coerced to valid UTF-8: every
  byte that does not belong to a valid UTF-8 sequence is replaced by U+FFFD, whose UTF-8
  encoding is \<open>EF BF BD\<close>. \<open>utf8_len\<close> is the length of the valid UTF-8 sequence at the
  head of a string (0 when there is none) and \<open>utf8_coerce\<close> is that coercion.
  \<open>demo_Marshal\<close> coerces keys and values so and writes the entries, in the order of
  their keys, each string after its length; \<open>demo_Unmarshal\<close> reads that form back; of
  two entries with the same key it keeps the later one, as \<^verbatim>\<open>json.Unmarshal\<close> does.
\<close>

definition utf8_second :: "nat \<Rightarrow> char \<Rightarrow> bool" where
  "utf8_second b0 c =
     (let b1 = (of_char c :: nat) in
      if b0 = 224 then 160 \<le> b1 \<and> b1 \<le> 191
      else if b0 = 237 then 128 \<le> b1 \<and> b1 \<le> 159
      else if b0 = 240 then 144 \<le> b1 \<and> b1 \<le> 191
      else if b0 = 244 then 128 \<le> b1 \<and> b1 \<le> 143
      else 128 \<le> b1 \<and> b1 \<le> 191)"

fun utf8_len :: "string \<Rightarrow> nat" where
  "utf8_len [] = 0"
| "utf8_len (c # cs) =
     (let b0 = (of_char c :: nat) in
      if b0 < 128 then 1
      else if 194 \<le> b0 \<and> b0 \<le> 223 then
        (case cs of c1 # _ \<Rightarrow> if utf8_cont c1 then 2 else 0 | _ \<Rightarrow> 0)
      else if 224 \<le> b0 \<and> b0 \<le> 239 then
        (case cs of c1 # c2 # _ \<Rightarrow> if utf8_second b0 c1 \<and> utf8_cont c2 then 3 else 0 | _ \<Rightarrow> 0)
      else if 240 \<le> b0 \<and> b0 \<le> 244 then
        (case cs of c1 # c2 # c3 # _ \<Rightarrow>
           if utf8_second b0 c1 \<and> utf8_cont c2 \<and> utf8_cont c3 then 4 else 0 | _ \<Rightarrow> 0)
      else 0)"

function utf8_coerce :: "string \<Rightarrow> string" where
  "utf8_coerce [] = []"
| "utf8_coerce (c # cs) =
     (let n = utf8_len (c # cs) in
      if n = 0 then [CHR 0xEF, CHR 0xBF, CHR 0xBD] @ utf8_coerce cs
      else take n (c # cs) @ utf8_coerce (drop n (c # cs)))"
  by pat_completeness auto
termination
  by (relation "measure length") auto

definition demo_hmac :: "bytes \<Rightarrow> bytes \<Rightarrow> bytes" where
  "demo_hmac key d =
     (if length d = 64 then replicate 64 0 else take 64 (key @ replicate 64 1))"

definition demo_aead :: "bytes \<Rightarrow> aead" where
  "demo_aead key =
     \<lparr>gcm_NonceSize = 12,
      gcm_Seal = (\<lambda>nonce pt. pt @ take 16 (key @ replicate 16 0)),
      gcm_Open = (\<lambda>nonce ct.
        if 16 \<le> length ct \<and> drop (length ct - 16) ct = take 16 (key @ replicate 16 0)
        then Some (take (length ct - 16) ct) else None)\<rparr>"

definition demo_enc :: "string \<Rightarrow> bytes" where
  "demo_enc s = of_nat (length (utf8_coerce s)) # bytes_of (utf8_coerce s)"

definition demo_Marshal :: "(string \<rightharpoonup> string) \<Rightarrow> bytes option" where
  "demo_Marshal m =
     Some (concat (map (\<lambda>k. demo_enc k @ demo_enc (the (m k))) (sorted_list_of_set (dom m))))"

function demo_parse :: "bytes \<Rightarrow> (string \<times> string) list option" where
  "demo_parse [] = Some []"
| "demo_parse (n # rest) =
     (if length rest < unat n + 1 then None
      else
        let k = take (unat n) rest; m = rest ! unat n; r = drop (unat n + 1) rest in
        if length r < unat m then None
        else
          case demo_parse (drop (unat m) r) of
            None \<Rightarrow> None
          | Some es \<Rightarrow> Some ((string_of k, string_of (take (unat m) r)) # es))"
  by pat_completeness auto
termination
  by (relation "measure length") auto

definition demo_Unmarshal :: "bytes \<Rightarrow> (string \<rightharpoonup> string) option" where
  "demo_Unmarshal b = map_option (\<lambda>es. map_of (rev es)) (demo_parse b)"

definition demo_lib :: "bytes stdlib" where
  "demo_lib =
     \<lparr>hmac_sha512 = demo_hmac,
      aes_NewCipher = (\<lambda>key. if length key \<in> {16, 24, 32} then Some key else None),
      cipher_NewGCM = (\<lambda>c. Some (demo_aead c)),
      json_Marshal = demo_Marshal,
      json_Unmarshal = demo_Unmarshal\<rparr>"

definition demo_env :: env where
  "demo_env =
     \<lparr>rand_bytes = (\<lambda>i. of_nat (7 * i + 3)), rand_fails = (\<lambda>_. False),
      read_fails = False, open_fails = False, write_fails = (\<lambda>_. None)\<rparr>"

section \<open>Conversions\<close>

lemma string_of_bytes_of [simp]: "string_of (bytes_of s) = s"
proof -
  have "char_of (unat (of_nat (of_char c) :: byte)) = c" for c
  proof -
    have "unat (of_nat (of_char c) :: byte) = of_char c"
      by (simp add: unat_of_nat)
    then show ?thesis by simp
  qed
  then show ?thesis
    by (simp add: string_of_def bytes_of_def map_idI)
qed

lemma string_of_Nil [simp]: "string_of [] = []"
  by (simp add: string_of_def)

section \<open>Store: set, get, del\<close>

lemma get_set_kv_same: "get (set_kv k key val) key = (val, True)"
  by (simp add: get_def set_kv_def)

lemma get_set_kv_other: "key' \<noteq> key \<Longrightarrow> get (set_kv k key val) key' = get k key'"
  by (simp add: get_def set_kv_def)

lemma data_del: "data (fst (del k key)) = (data k)(key := None)"
  by (simp add: del_def Let_def split: option.splits) (auto simp: fun_eq_iff)

lemma get_del_same: "get (fst (del k key)) key = ([], False)"
  by (simp add: get_def data_del)

lemma get_del_other: "key' \<noteq> key \<Longrightarrow> get (fst (del k key)) key' = get k key'"
  by (simp add: get_def data_del)

lemma snd_del: "snd (del k key) = snd (get k key)"
  by (simp add: del_def get_def Let_def split: option.splits)

lemma del_absent: "\<not> snd (get k key) \<Longrightarrow> del k key = (k, False)"
  by (simp add: del_def get_def split: option.splits)

lemma get_newKV: "get newKV K = ([], False)"
  by (simp add: get_def newKV_def)

lemma data_replace: "data (replace k inp) = (\<lambda>key. map_option bytes_of (inp key))"
proof -
  have "(\<lambda>key. map_option zero_bytes (data k key)) |` (- dom (\<lambda>key. map_option zero_bytes (data k key)))
        = Map.empty"
    by (auto simp: restrict_map_def fun_eq_iff domIff)
  then show ?thesis
    by (simp add: replace_def Let_def)
qed

lemma get_replace:
  "get (replace k inp) K = (case inp K of None \<Rightarrow> ([], False) | Some v \<Rightarrow> (v, True))"
  by (simp add: get_def data_replace split: option.splits)

lemma run_snoc: "run k (ops @ [x]) = apply_op (run k ops) x"
  by (simp add: run_def)

lemma last_write_snoc:
  "last_write K (ops @ [x]) =
     (case writes x K of Some r \<Rightarrow> Some r | None \<Rightarrow> last_write K ops)"
  by (induction ops) (auto split: option.splits)

text \<open>
  Calls that run one after the other: after any history of \<open>set\<close>, \<open>del\<close> and
  \<open>replace\<close> from any store, \<open>get K\<close> returns what the last operation that writes for
  \<open>K\<close> has written, and what the store held before when there is none.
\<close>

lemma get_run:
  "get (run k ops) K =
     (case last_write K ops of
        None \<Rightarrow> get k K
      | Some None \<Rightarrow> ([], False)
      | Some (Some v) \<Rightarrow> (v, True))"
proof (induction ops rule: rev_induct)
  case Nil
  show ?case by (simp add: run_def)
next
  case (snoc x ops)
  show ?case
  proof (cases x)
    case (Set key val)
    then show ?thesis
      using snoc by (simp add: run_snoc last_write_snoc get_set_kv_same get_set_kv_other)
  next
    case (Del key)
    then show ?thesis
      using snoc by (simp add: run_snoc last_write_snoc get_del_same get_del_other)
  next
    case (Replace inp)
    then show ?thesis
      by (simp add: run_snoc last_write_snoc get_replace)
  qed
qed

text \<open>
  Claim C9. For every store and key: \<open>del\<close> returns \<open>true\<close> exactly when the key is
  present; after it \<open>get\<close> of that key reports absence and every other key reads as
  before; on an absent key \<open>del\<close> returns \<open>false\<close> and the store is unchanged; and a
  second \<open>del\<close> of the same key right after the first returns \<open>false\<close>.
\<close>

theorem del_found_iff_present:
  "snd (del k key) = snd (get k key) \<and>
   get (fst (del k key)) key = ([], False) \<and>
   (\<forall>key'. key' \<noteq> key \<longrightarrow> get (fst (del k key)) key' = get k key') \<and>
   (\<not> snd (get k key) \<longrightarrow> del k key = (k, False)) \<and>
   snd (del (fst (del k key)) key) = False"
proof -
  have "snd (del (fst (del k key)) key) = False"
    by (simp add: snd_del get_del_same)
  then show ?thesis
    by (simp add: snd_del get_del_same get_del_other del_absent)
qed

theorem del_found_iff_present_witness:
  "snd (del (set_kv newKV ''a'' ''1'') ''a'') \<and>
   snd (get (set_kv newKV ''a'' ''1'') ''a'') \<and>
   get (fst (del (set_kv newKV ''a'' ''1'') ''a'')) ''a'' = ([], False) \<and>
   get (fst (del (set_kv newKV ''a'' ''1'') ''a'')) ''b'' = get (set_kv newKV ''a'' ''1'') ''b'' \<and>
   \<not> snd (get newKV ''a'') \<and>
   del newKV ''a'' = (newKV, False) \<and>
   \<not> snd (del (fst (del (set_kv newKV ''a'' ''1'') ''a'')) ''a'')"
  using del_found_iff_present [of "set_kv newKV ''a'' ''1''" "''a''"]
    del_found_iff_present [of newKV "''a''"]
  by (simp add: get_set_kv_same get_newKV)

section \<open>The store in memory\<close>

text \<open>
  The memory and the store it represents: \<open>get_mem\<close> and \<open>snapshot_mem\<close> return what
  \<open>get\<close> and \<open>snapshot\<close> return on the store represented, and \<open>set_mem\<close>,
  \<open>del_mem\<close> and \<open>replace_mem\<close> change the memory as \<open>set_kv\<close>, \<open>del\<close> and
  \<open>replace\<close> change that store. A \<open>set\<close> between the two steps of a \<open>get\<close> does no
  harm: the \<open>get\<close> returns what it would have returned before the \<open>set\<close>. A \<open>del\<close> of
  the same key in between makes it return the zeroed buffer.
\<close>

lemma kv_eqI: "data (a :: kv) = data b \<Longrightarrow> a = b"
  by (cases a, cases b) simp

lemma map_of_filter_key:
  "map_of (filter (\<lambda>e. fst e \<noteq> key) xs) k = (if k = key then None else map_of xs k)"
  by (induction xs) auto

lemma map_of_in_snd: "map_of xs k = Some v \<Longrightarrow> v \<in> snd ` set xs"
  by (force dest!: map_of_SomeD)

lemma map_of_snd_inj:
  "distinct (map snd xs) \<Longrightarrow> map_of xs k = Some v \<Longrightarrow> map_of xs k' = Some v \<Longrightarrow> k = k'"
proof (induction xs)
  case Nil
  then show ?case by simp
next
  case (Cons a xs)
  then show ?case
    using map_of_in_snd [of xs k v] map_of_in_snd [of xs k' v]
    by (cases "fst a = k"; cases "fst a = k'") auto
qed

lemma wf_mem_bound: "wf_mem s \<Longrightarrow> map_of (data_m s) k = Some v \<Longrightarrow> v < length (heap s)"
  by (force simp: wf_mem_def dest!: map_of_SomeD)

lemma store_of_newKV_mem: "store_of newKV_mem = newKV"
  by (simp add: store_of_def newKV_mem_def newKV_def)

lemma wf_newKV_mem: "wf_mem newKV_mem"
  by (simp add: wf_mem_def newKV_mem_def)

lemma get_mem_store_of: "get_mem s key = get (store_of s) key"
  by (simp add: get_mem_def get_lookup_def get_return_def get_def store_of_def
      split: option.splits)

lemma snapshot_mem_store_of: "snapshot_mem s = snapshot (store_of s)"
proof -
  have "map_of (map (\<lambda>(key, v). (key, string_of (heap s ! v))) xs) k
        = map_option (\<lambda>v. string_of (heap s ! v)) (map_of xs k)" for xs :: "(string \<times> addr) list" and k
    by (induction xs) auto
  then show ?thesis
    by (simp add: snapshot_mem_def snapshot_def store_of_def fun_eq_iff option.map_comp comp_def)
qed

lemma store_of_set_mem:
  assumes "wf_mem s"
  shows "store_of (set_mem s key val) = set_kv (store_of s) key val"
proof (rule kv_eqI, rule ext)
  fix k
  show "data (store_of (set_mem s key val)) k = data (set_kv (store_of s) key val) k"
  proof (cases "k = key")
    case True
    then show ?thesis
      by (simp add: store_of_def set_mem_def alloc_def store_entry_def set_kv_def)
  next
    case False
    show ?thesis
    proof (cases "map_of (data_m s) k")
      case None
      with False show ?thesis
        by (simp add: store_of_def set_mem_def alloc_def store_entry_def set_kv_def
            map_of_filter_key)
    next
      case (Some v)
      then have "v < length (heap s)"
        using assms by (rule wf_mem_bound [rotated])
      with False Some show ?thesis
        by (simp add: store_of_def set_mem_def alloc_def store_entry_def set_kv_def
            map_of_filter_key nth_append)
    qed
  qed
qed

lemma wf_set_mem:
  assumes "wf_mem s"
  shows "wf_mem (set_mem s key val)"
proof -
  have b: "\<forall>e \<in> set (data_m s). snd e < length (heap s)"
    using assms by (simp add: wf_mem_def)
  then have "length (heap s) \<notin> snd ` set (filter (\<lambda>e. fst e \<noteq> key) (data_m s))"
    by auto
  moreover have "distinct (map snd (filter (\<lambda>e. fst e \<noteq> key) (data_m s)))"
    using assms by (simp add: wf_mem_def distinct_map_filter)
  ultimately show ?thesis
    using b by (auto simp: wf_mem_def set_mem_def alloc_def store_entry_def less_Suc_eq)
qed

lemma snd_del_mem: "snd (del_mem s key) = snd (del (store_of s) key)"
  by (simp add: del_mem_def del_def store_of_def Let_def split: option.splits)

lemma store_of_del_mem:
  assumes "wf_mem s"
  shows "store_of (fst (del_mem s key)) = fst (del (store_of s) key)"
proof (rule kv_eqI, rule ext)
  fix k
  show "data (store_of (fst (del_mem s key))) k = data (fst (del (store_of s) key)) k"
  proof (cases "map_of (data_m s) key")
    case None
    then show ?thesis
      by (simp add: del_mem_def del_def store_of_def)
  next
    case (Some v)
    show ?thesis
    proof (cases "k = key")
      case True
      with Some show ?thesis
        by (simp add: data_del del_mem_def store_of_def delete_entry_def zero_mem_def
            map_of_filter_key)
    next
      case False
      show ?thesis
      proof (cases "map_of (data_m s) k")
        case None
        with False Some show ?thesis
          by (simp add: data_del del_mem_def store_of_def delete_entry_def zero_mem_def
              map_of_filter_key)
      next
        case (Some v')
        have "v' \<noteq> v"
          using map_of_snd_inj [of "data_m s" k v key] assms Some \<open>map_of (data_m s) key = Some v\<close> False
          by (auto simp: wf_mem_def)
        with False Some \<open>map_of (data_m s) key = Some v\<close> show ?thesis
          by (simp add: data_del del_mem_def store_of_def delete_entry_def zero_mem_def
              map_of_filter_key)
      qed
    qed
  qed
qed

lemma wf_del_mem:
  assumes "wf_mem s"
  shows "wf_mem (fst (del_mem s key))"
  using assms
  by (auto simp: wf_mem_def del_mem_def delete_entry_def zero_mem_def distinct_map_filter
      split: option.splits)

lemma clear_loop:
  "data_m (fold (\<lambda>(key, v) s'. delete_entry (zero_mem s' v) key) xs s)
   = filter (\<lambda>e. fst e \<notin> fst ` set xs) (data_m s)"
proof (induction xs arbitrary: s)
  case Nil
  show ?case by simp
next
  case (Cons x xs)
  obtain key v where x: "x = (key, v)" by (cases x)
  show ?case
    unfolding x by (simp add: Cons.IH) (simp add: delete_entry_def zero_mem_def conj_commute)
qed

lemma clear_loop_all:
  "data_m (fold (\<lambda>(key, v) s'. delete_entry (zero_mem s' v) key) (data_m s) s) = []"
  by (simp add: clear_loop)

lemma store_loop:
  "wf_mem s \<Longrightarrow>
   wf_mem (fold (\<lambda>(key, val) s'. set_mem s' key val) inp s) \<and>
   data (store_of (fold (\<lambda>(key, val) s'. set_mem s' key val) inp s))
   = data (store_of s) ++ (\<lambda>k. map_option bytes_of (map_of (rev inp) k))"
proof (induction inp arbitrary: s)
  case Nil
  then show ?case by (simp add: map_add_def)
next
  case (Cons x inp)
  obtain key val where x: "x = (key, val)" by (cases x)
  have wf: "wf_mem (set_mem s key val)"
    using Cons.prems by (rule wf_set_mem)
  have "data (store_of (set_mem s key val)) ++ (\<lambda>k. map_option bytes_of (map_of (rev inp) k))
        = data (store_of s) ++ (\<lambda>k. map_option bytes_of (map_of (rev inp @ [(key, val)]) k))"
    by (auto simp: store_of_set_mem [OF Cons.prems] set_kv_def fun_eq_iff map_add_def
        split: option.splits)
  with Cons.IH [OF wf] show ?case
    unfolding x by simp
qed

lemma store_of_replace_mem:
  "store_of (replace_mem s inp) = replace (store_of s) (map_of (rev inp))"
proof -
  let ?s1 = "fold (\<lambda>(key, v) s'. delete_entry (zero_mem s' v) key) (data_m s) s"
  have e: "data_m ?s1 = []"
    by (rule clear_loop_all)
  then have "wf_mem ?s1" and "data (store_of ?s1) = Map.empty"
    by (simp_all add: wf_mem_def store_of_def)
  with store_loop [of ?s1 inp]
  have "data (store_of (replace_mem s inp)) = (\<lambda>k. map_option bytes_of (map_of (rev inp) k))"
    by (simp add: replace_mem_def Let_def)
  then show ?thesis
    by (intro kv_eqI) (simp add: data_replace)
qed

lemma wf_replace_mem: "wf_mem (replace_mem s inp)"
proof -
  let ?s1 = "fold (\<lambda>(key, v) s'. delete_entry (zero_mem s' v) key) (data_m s) s"
  have "data_m ?s1 = []"
    by (rule clear_loop_all)
  then have "wf_mem ?s1"
    by (simp add: wf_mem_def)
  with store_loop [of ?s1 inp] show ?thesis
    by (simp add: replace_mem_def Let_def)
qed

lemma get_overlapped_set:
  assumes "wf_mem s"
  shows "get_overlapped s key (\<lambda>s'. set_mem s' k val) = get (store_of s) key"
proof (cases "map_of (data_m s) key")
  case None
  then show ?thesis
    by (simp add: get_overlapped_def get_lookup_def get_return_def get_def store_of_def)
next
  case (Some v)
  then have "v < length (heap s)"
    using assms by (rule wf_mem_bound [rotated])
  with Some show ?thesis
    by (simp add: get_overlapped_def get_lookup_def get_return_def get_def store_of_def
        set_mem_def alloc_def store_entry_def nth_append)
qed

lemma get_overlapped_del:
  assumes "wf_mem s" and "map_of (data_m s) key = Some v"
  shows "get_overlapped s key (\<lambda>s'. fst (del_mem s' key))
         = (string_of (zero_bytes (heap s ! v)), True)"
proof -
  have "v < length (heap s)"
    using assms by (rule wf_mem_bound)
  with assms(2) show ?thesis
    by (simp add: get_overlapped_def get_lookup_def get_return_def del_mem_def
        delete_entry_def zero_mem_def)
qed

lemmas mem_eval = newKV_mem_def alloc_def zero_mem_def store_entry_def delete_entry_def
  set_mem_def get_lookup_def get_return_def get_mem_def get_overlapped_def del_mem_def
  replace_mem_def Let_def

lemma string_of_zeroed_ab: "string_of (zero_bytes (bytes_of ''ab'')) = [CHR 0x00, CHR 0x00]"
  by (simp add: bytes_of_def string_of_def char_of_def)

text \<open>
  Claim C8 says that \<open>get\<close> returns the value most recently set for the key, or
  absence when the key was never set or has been deleted since. The code does so for
  calls that run one after the other: there each operation on the memory is the
  operation of the first model on the store that the memory represents (the lemmas
  above), and on that store \<open>get\<close> returns what the last write for the key has written
  (\<open>get_run\<close>). It does not for a \<open>get\<close> that another call overlaps. \<^verbatim>\<open>get\<close>
  converts the buffer to a string only after it has released the lock, while \<^verbatim>\<open>del\<close>
  and \<^verbatim>\<open>replace\<close> overwrite that same buffer with zeros before they remove the
  entry; \<^verbatim>\<open>snapshot\<close>, which converts buffers too, holds the lock while it does. The
  theorem runs \<open>get\<close> of the key \<open>k\<close> on the store after \<open>set k ab\<close>. On its own it
  returns \<open>ab\<close> and \<open>true\<close>, and after a \<open>del\<close> of \<open>k\<close> it reports absence. With
  that \<open>del\<close> between its lookup and its return it returns two NUL bytes and \<open>true\<close>,
  which is neither. With a \<open>replace\<close> that stores \<open>cd\<close> under \<open>k\<close> in between it
  returns the same two NUL bytes, where a \<open>get\<close> after the \<open>replace\<close> returns \<open>cd\<close>.
\<close>

theorem get_overlapping_del_returns_zeroed_buffer:
  "get_mem (set_mem newKV_mem ''k'' ''ab'') ''k'' = (''ab'', True) \<and>
   get_mem (fst (del_mem (set_mem newKV_mem ''k'' ''ab'') ''k'')) ''k'' = ([], False) \<and>
   get_overlapped (set_mem newKV_mem ''k'' ''ab'') ''k'' (\<lambda>s. fst (del_mem s ''k''))
     = ([CHR 0x00, CHR 0x00], True) \<and>
   get_overlapped (set_mem newKV_mem ''k'' ''ab'') ''k'' (\<lambda>s. replace_mem s [(''k'', ''cd'')])
     = ([CHR 0x00, CHR 0x00], True) \<and>
   get_mem (replace_mem (set_mem newKV_mem ''k'' ''ab'') [(''k'', ''cd'')]) ''k'' = (''cd'', True)"
  by (simp add: mem_eval string_of_zeroed_ab)

section \<open>pbkdf2sha512 computes PBKDF2\<close>

declare iter_loop.simps [simp del] block_loop.simps [simp del]

lemma xor_into_ok: "length t \<le> length u \<Longrightarrow> xor_into t u = Inr (xor_bytes t u)"
  by (induction t u rule: xor_into.induct) (auto simp: xor_bytes_def)

lemma length_xor_bytes: "length (xor_bytes a b) = min (length a) (length b)"
  by (simp add: xor_bytes_def)

lemma length_rfc_U: "(\<And>k d. length (h k d) = n) \<Longrightarrow> 0 < j \<Longrightarrow> length (rfc_U h P S i j) = n"
  by (induction h P S i j rule: rfc_U.induct) auto

lemma length_rfc_T: "(\<And>k d. length (h k d) = n) \<Longrightarrow> 0 < c \<Longrightarrow> length (rfc_T h P S c i) = n"
proof (induction h P S c i rule: rfc_T.induct)
  case (3 h P S c i)
  then show ?case by (simp add: length_xor_bytes length_rfc_U)
qed auto

lemma word_of_int_div_nat:
  "0 \<le> i \<Longrightarrow> (word_of_int (i div 2 ^ k) :: byte) = of_nat (nat i div 2 ^ k)"
proof -
  assume "0 \<le> i"
  then have "i div 2 ^ k = int (nat i div 2 ^ k)"
    by (simp add: zdiv_int)
  then show ?thesis by simp
qed

lemma be32_INT: "0 \<le> i \<Longrightarrow> be32 i = INT_32BE (nat i)"
  using word_of_int_div_nat [of i 24] word_of_int_div_nat [of i 16]
    word_of_int_div_nat [of i 8]
  by (simp add: be32_def INT_32BE_def)

lemma iter_loop_rfc:
  "(\<forall>k d. length (hmac_sha512 L k d) = 64) \<Longrightarrow> 1 \<le> j \<Longrightarrow> j \<le> iter \<Longrightarrow>
     u = rfc_U (hmac_sha512 L) P S i (nat j) \<Longrightarrow>
     t = rfc_T (hmac_sha512 L) P S (nat j) i \<Longrightarrow>
     iter_loop L P j iter u t = Inr (rfc_T (hmac_sha512 L) P S (nat iter) i)"
proof (induction L P j iter u t rule: iter_loop.induct)
  case (1 L password j iter u t)
  note len = "1.prems"(1) and j1 = "1.prems"(2) and ji = "1.prems"(3)
    and u = "1.prems"(4) and t = "1.prems"(5)
  show ?case
  proof (cases "j < iter")
    case False
    with ji t show ?thesis by (simp add: iter_loop.simps)
  next
    case True
    obtain n where n: "nat j = Suc n" using j1 by (cases "nat j") auto
    have sj: "nat (j + 1) = Suc (Suc n)" using n j1 by simp
    let ?u' = "hmacSHA512 L password u"
    have u': "?u' = rfc_U (hmac_sha512 L) password S i (nat (j + 1))"
      using u n sj by (simp add: hmacSHA512_def)
    have lt: "length t = 64"
      using t n length_rfc_T [of "hmac_sha512 L" 64 "nat j" password S i] len by simp
    have x: "xor_into t ?u' = Inr (xor_bytes t ?u')"
      by (rule xor_into_ok) (simp add: lt hmacSHA512_def len)
    have t': "xor_bytes t ?u' = rfc_T (hmac_sha512 L) password S (nat (j + 1)) i"
      using t u' n sj by simp
    have "iter_loop L password (j + 1) iter ?u' (xor_bytes t ?u')
        = Inr (rfc_T (hmac_sha512 L) password S (nat iter) i)"
      using True j1 u' t' x len
      by (intro "1.IH") auto
    then show ?thesis
      using True x by (simp add: iter_loop.simps [of L password j])
  qed
qed

lemma copy_bytes_full: "length src = length dst \<Longrightarrow> copy_bytes dst src = src"
  by (simp add: copy_bytes_def)

lemma block_body_rfc:
  assumes len: "\<forall>k d. length (hmac_sha512 L k d) = 64" and it: "1 \<le> iter" and i: "1 \<le> i"
  shows "iter_loop L P 1 iter (hmacSHA512 L P (S @ be32 i))
           (copy_bytes (replicate (nat hLen) 0) (hmacSHA512 L P (S @ be32 i)))
         = Inr (rfc_T (hmac_sha512 L) P S (nat iter) (nat i))"
proof -
  let ?u = "hmacSHA512 L P (S @ be32 i)"
  have u: "?u = rfc_U (hmac_sha512 L) P S (nat i) (nat 1)"
    using i by (simp add: hmacSHA512_def be32_INT)
  have "copy_bytes (replicate (nat hLen) 0) ?u = ?u"
    by (rule copy_bytes_full) (simp add: hLen_def hmacSHA512_def len)
  moreover have "?u = rfc_T (hmac_sha512 L) P S (nat 1) (nat i)"
    using u by simp
  ultimately show ?thesis
    using iter_loop_rfc [OF len _ it u, of "?u"] by simp
qed

lemma block_loop_rfc:
  "(\<forall>k d. length (hmac_sha512 L k d) = 64) \<Longrightarrow> 1 \<le> iter \<Longrightarrow> 1 \<le> i \<Longrightarrow> i \<le> l + 1 \<Longrightarrow>
     dk = concat (map (rfc_T (hmac_sha512 L) P S (nat iter)) [1 ..< nat i]) \<Longrightarrow>
     block_loop L P S iter i l dk
       = Inr (concat (map (rfc_T (hmac_sha512 L) P S (nat iter)) [1 ..< Suc (nat l)]))"
proof (induction L P S iter i l dk rule: block_loop.induct)
  case (1 L password salt iter i l dk)
  note len = "1.prems"(1) and it = "1.prems"(2) and i1 = "1.prems"(3)
    and il = "1.prems"(4) and dk = "1.prems"(5)
  let ?T = "rfc_T (hmac_sha512 L) password salt (nat iter)"
  show ?case
  proof (cases "i \<le> l")
    case False
    then have "i = l + 1" using il by simp
    then have "nat i = Suc (nat l)" using i1 by simp
    with False dk show ?thesis by (simp add: block_loop.simps)
  next
    case True
    have body: "iter_loop L password 1 iter (hmacSHA512 L password (salt @ be32 i))
           (copy_bytes (replicate (nat hLen) 0) (hmacSHA512 L password (salt @ be32 i)))
         = Inr (?T (nat i))"
      by (rule block_body_rfc [OF len it i1])
    have up: "[1 ..< nat (i + 1)] = [1 ..< nat i] @ [nat i]"
      using i1 by (simp add: nat_add_distrib)
    have "block_loop L password salt iter (i + 1) l (dk @ ?T (nat i))
        = Inr (concat (map ?T [1 ..< Suc (nat l)]))"
      using True i1 dk up len it body
      by (intro "1.IH") auto
    then show ?thesis
      using True body by (simp add: block_loop.simps [of L password salt iter i] Let_def)
  qed
qed

lemma wrap64_id: "- (2 ^ 63) \<le> x \<Longrightarrow> x < 2 ^ 63 \<Longrightarrow> wrap64 x = x"
proof -
  assume a: "- (2 ^ 63) \<le> x" "x < 2 ^ 63"
  have "(x + 2 ^ 63) mod 2 ^ 64 = x + 2 ^ 63"
    by (rule mod_pos_pos_trivial) (use a in simp_all)
  then show ?thesis by (simp add: wrap64_def)
qed

lemma wrap64_diff: "wrap64 (wrap64 a - b) = wrap64 (a - b)"
proof -
  have "(wrap64 a - b + 2 ^ 63) mod 2 ^ 64 = ((a + 2 ^ 63) mod 2 ^ 64 - b) mod 2 ^ 64"
    by (simp add: wrap64_def)
  also have "\<dots> = (a + 2 ^ 63 - b) mod 2 ^ 64"
    by (rule mod_diff_left_eq)
  also have "\<dots> = (a - b + 2 ^ 63) mod 2 ^ 64"
    by (simp add: algebra_simps)
  finally show ?thesis
    unfolding wrap64_def [of "wrap64 a - b"] wrap64_def [of "a - b"] by simp
qed

lemma rfc_blocks_ceil: "rfc_blocks n = (n + 63) div 64"
proof -
  define q r where "q = n div 64" and "r = n mod 64"
  have n: "n + 63 = (r + 63) + 64 * q" and r: "r < 64"
    by (simp_all add: q_def r_def)
  have "(n + 63) div 64 = q + (r + 63) div 64"
    unfolding n by (simp add: add.commute)
  moreover have "(r + 63) div 64 = (if r = 0 then 0 else 1)"
  proof (cases "r = 0")
    case True then show ?thesis by simp
  next
    case False
    then have "64 * 1 \<le> r + 63" "r + 63 < 64 * Suc 1" using r by simp_all
    then have "(r + 63) div 64 = 1" by (rule div_nat_eqI)
    with False show ?thesis by simp
  qed
  ultimately show ?thesis by (simp add: rfc_blocks_def q_def r_def)
qed

lemma blocks_count:
  assumes "1 \<le> dkLen" and "dkLen \<le> 2 ^ 63 - 64"
  shows "go_quot (wrap64 (wrap64 (dkLen + hLen) - 1)) hLen = int (rfc_blocks (nat dkLen))"
proof -
  have "wrap64 (wrap64 (dkLen + hLen) - 1) = wrap64 (dkLen + hLen - 1)"
    by (rule wrap64_diff)
  also have "\<dots> = dkLen + hLen - 1"
    unfolding hLen_def by (rule wrap64_id) (use assms in simp_all)
  finally have a: "wrap64 (wrap64 (dkLen + hLen) - 1) = dkLen + 63"
    by (simp add: hLen_def)
  have c: "go_quot (dkLen + 63) 64 = (dkLen + 63) div 64"
    using assms by (simp add: go_quot_def)
  have d: "(dkLen + 63) div 64 = int (rfc_blocks (nat dkLen))"
  proof -
    have "dkLen + 63 = int (nat dkLen + 63)" using assms(1) by simp
    then have "(dkLen + 63) div 64 = int ((nat dkLen + 63) div 64)"
      by (simp only: zdiv_int) simp
    then show ?thesis by (simp only: rfc_blocks_ceil)
  qed
  show ?thesis using a c d by (simp add: hLen_def)
qed

lemma length_concat_blocks:
  "(\<And>i. i \<in> set xs \<Longrightarrow> length (T i) = n) \<Longrightarrow> length (concat (map T xs)) = n * length xs"
  by (induction xs) auto

lemma rfc_blocks_enough: "n \<le> 64 * rfc_blocks n"
proof -
  have "n \<le> 64 * ((n + 63) div 64)"
    using div_mult_mod_eq [of "n + 63" 64] mod_less_divisor [of 64 "n + 63"]
    by linarith
  then show ?thesis by (simp only: rfc_blocks_ceil)
qed

lemma length_rfc_DK:
  assumes "\<forall>k d. length (h k d) = 64" and "0 < c"
  shows "length (rfc_DK h P S c dkLen) = dkLen"
proof -
  have "length (concat (map (rfc_T h P S c) [1 ..< Suc (rfc_blocks dkLen)])) = 64 * rfc_blocks dkLen"
    using length_concat_blocks [of "[1 ..< Suc (rfc_blocks dkLen)]" "rfc_T h P S c" 64]
      length_rfc_T [of h 64 c P S] assms by simp
  then show ?thesis
    using rfc_blocks_enough [of dkLen] by (simp add: rfc_DK_def)
qed

lemma pbkdf2sha512_rfc:
  assumes len: "\<forall>k d. length (hmac_sha512 L k d) = 64"
    and it: "1 \<le> iter" and dk1: "1 \<le> dkLen" and dk2: "dkLen \<le> 2 ^ 63 - 64"
  shows "pbkdf2sha512 L P S iter dkLen
         = Inr (rfc_DK (hmac_sha512 L) P S (nat iter) (nat dkLen))"
proof -
  let ?T = "rfc_T (hmac_sha512 L) P S (nat iter)"
  let ?l = "rfc_blocks (nat dkLen)"
  let ?dk = "concat (map ?T [1 ..< Suc ?l])"
  have l: "go_quot (wrap64 (wrap64 (dkLen + hLen) - 1)) hLen = int ?l"
    by (rule blocks_count [OF dk1 dk2])
  have loop: "block_loop L P S iter 1 (int ?l) [] = Inr ?dk"
    using block_loop_rfc [OF len it, of 1 "int ?l" "[]" P S] by simp
  have "length ?dk = 64 * ?l"
    using length_concat_blocks [of "[1 ..< Suc ?l]" ?T 64]
      length_rfc_T [of "hmac_sha512 L" 64 "nat iter" P S] len it by simp
  then have "nat dkLen \<le> length ?dk"
    using rfc_blocks_enough [of "nat dkLen"] by simp
  then have ok: "\<not> (dkLen < 0 \<or> int (length ?dk) < dkLen)"
    using dk1 by linarith
  show ?thesis
    unfolding pbkdf2sha512_def l Let_def loop using ok
    by (simp add: rfc_DK_def)
qed

lemma deriveKey_rfc:
  assumes len: "\<forall>k d. length (hmac_sha512 L k d) = 64"
  shows "deriveKey L pass salt = Inr (rfc_DK (hmac_sha512 L) pass salt 100000 32)"
  unfolding deriveKey_def using pbkdf2sha512_rfc [OF len, of 100000 32 pass salt] by simp

subsection \<open>The only error of the key derivation is a panic\<close>

lemma xor_into_err: "xor_into t u = Inl e \<Longrightarrow> e = Panic"
  by (induction t u rule: xor_into.induct) (auto split: sum.splits)

lemma iter_loop_err: "iter_loop L P j iter u t = Inl e \<Longrightarrow> e = Panic"
proof (induction L P j iter u t rule: iter_loop.induct)
  case (1 L password j iter u t)
  show ?case
  proof (cases "j < iter")
    case False
    with "1.prems" show ?thesis by (simp add: iter_loop.simps)
  next
    case True
    show ?thesis
    proof (cases "xor_into t (hmacSHA512 L password u)")
      case (Inl e')
      with True "1.prems" show ?thesis
        by (simp add: iter_loop.simps [of L password j] xor_into_err)
    next
      case (Inr t')
      with True "1.prems" have "iter_loop L password (j + 1) iter (hmacSHA512 L password u) t' = Inl e"
        by (simp add: iter_loop.simps [of L password j])
      with True Inr show ?thesis by (intro "1.IH") auto
    qed
  qed
qed

lemma block_loop_err: "block_loop L P S iter i l dk = Inl e \<Longrightarrow> e = Panic"
proof (induction L P S iter i l dk rule: block_loop.induct)
  case (1 L password salt iter i l dk)
  let ?u = "hmacSHA512 L password (salt @ be32 i)"
  let ?t = "copy_bytes (replicate (nat hLen) 0) ?u"
  show ?case
  proof (cases "i \<le> l")
    case False
    with "1.prems" show ?thesis by (simp add: block_loop.simps)
  next
    case True
    show ?thesis
    proof (cases "iter_loop L password 1 iter ?u ?t")
      case (Inl e')
      with True "1.prems" show ?thesis
        by (simp add: block_loop.simps [of L password salt iter i] Let_def iter_loop_err)
    next
      case (Inr t')
      with True "1.prems" have "block_loop L password salt iter (i + 1) l (dk @ t') = Inl e"
        by (simp add: block_loop.simps [of L password salt iter i] Let_def)
      with True Inr show ?thesis by (intro "1.IH") auto
    qed
  qed
qed

lemma pbkdf2sha512_err: "pbkdf2sha512 L P S iter dkLen = Inl e \<Longrightarrow> e = Panic"
  by (auto simp: pbkdf2sha512_def Let_def split: sum.splits if_splits dest: block_loop_err)

lemma deriveKey_err: "deriveKey L pass salt = Inl e \<Longrightarrow> e = Panic"
  by (simp add: deriveKey_def pbkdf2sha512_err)

section \<open>Saving and loading: the steps of a run\<close>

lemma load_error_store:
  "l_err (loadFromFile L E fs store file pass) \<noteq> None \<Longrightarrow>
   l_store (loadFromFile L E fs store file pass) = store"
  by (simp add: loadFromFile_def Let_def split: option.splits sum.splits if_splits)

lemma load_ok_steps:
  assumes ok: "l_err (loadFromFile L E fs store file pass) = None"
  shows "\<exists>d key c g pt m.
     os_ReadFile E fs file = Some d \<and> 28 \<le> length d \<and>
     deriveKey L (bytes_of pass) (go_slice d 0 16) = Inr key \<and>
     aes_NewCipher L key = Some c \<and> cipher_NewGCM L c = Some g \<and>
     gcm_Open g (go_slice d 16 28) (drop 28 d) = Some pt \<and>
     json_Unmarshal L pt = Some m \<and>
     loadFromFile L E fs store file pass =
       \<lparr>l_err = None, l_store = replace store m, l_pt = Some (zero_bytes pt),
        l_key = Some (zero_bytes key)\<rparr>"
proof -
  obtain d where d: "os_ReadFile E fs file = Some d"
    using ok by (cases "os_ReadFile E fs file") (simp_all add: loadFromFile_def)
  have len: "\<not> length d < 28"
    using ok d by (cases "length d < 28") (simp_all add: loadFromFile_def)
  obtain key where key: "deriveKey L (bytes_of pass) (go_slice d 0 16) = Inr key"
    using ok d len
    by (cases "deriveKey L (bytes_of pass) (go_slice d 0 16)")
      (simp_all add: loadFromFile_def Let_def)
  obtain c where c: "aes_NewCipher L key = Some c"
    using ok d len key
    by (cases "aes_NewCipher L key") (simp_all add: loadFromFile_def Let_def)
  obtain g where g: "cipher_NewGCM L c = Some g"
    using ok d len key c
    by (cases "cipher_NewGCM L c") (simp_all add: loadFromFile_def Let_def)
  obtain pt where pt: "gcm_Open g (go_slice d 16 28) (drop 28 d) = Some pt"
    using ok d len key c g
    by (cases "gcm_Open g (go_slice d 16 28) (drop 28 d)")
      (simp_all add: loadFromFile_def Let_def)
  obtain m where m: "json_Unmarshal L pt = Some m"
    using ok d len key c g pt
    by (cases "json_Unmarshal L pt") (simp_all add: loadFromFile_def Let_def)
  have "loadFromFile L E fs store file pass =
       \<lparr>l_err = None, l_store = replace store m, l_pt = Some (zero_bytes pt),
        l_key = Some (zero_bytes key)\<rparr>"
    using d len key c g pt m by (simp add: loadFromFile_def Let_def)
  with d len key c g pt m show ?thesis by auto
qed

lemma bytes_of_string_of [simp]: "bytes_of (string_of b) = b"
proof -
  have "(of_nat (of_char (char_of (unat w))) :: byte) = w" for w :: byte
  proof -
    have "unat w < 256" using unsigned_less [of w] by simp
    then have "(of_char (char_of (unat w)) :: nat) = unat w" by simp
    then show ?thesis by simp
  qed
  then show ?thesis
    by (simp add: string_of_def bytes_of_def map_idI)
qed

lemma data_replace_snapshot: "data (replace k (snapshot s)) = data s"
  by (simp add: data_replace snapshot_def fun_eq_iff option.map_comp comp_def option.map_ident)

lemma get_replace_snapshot: "get (replace k (snapshot s)) key = get s key"
  by (simp add: get_def data_replace_snapshot)

lemma save_ok_steps:
  assumes ok: "s_err (saveToFile L E fs store file pass) = None"
  shows "\<exists>blob key c g.
     json_Marshal L (snapshot store) = Some blob \<and>
     deriveKey L (bytes_of pass) (map (rand_bytes E) [0 ..< 16]) = Inr key \<and>
     aes_NewCipher L key = Some c \<and> cipher_NewGCM L c = Some g \<and>
     saveToFile L E fs store file pass =
       \<lparr>s_err = None,
        s_fs = fs(file \<mapsto> File (map (rand_bytes E) [0 ..< 16]
                  @ map (rand_bytes E) [16 ..< 16 + gcm_NonceSize g]
                  @ gcm_Seal g (map (rand_bytes E) [16 ..< 16 + gcm_NonceSize g]) blob)),
        s_blob = Some (zero_bytes blob), s_key = Some (zero_bytes key)\<rparr>"
proof -
  let ?salt = "map (rand_bytes E) [0 ..< 16]"
  obtain blob where blob: "json_Marshal L (snapshot store) = Some blob"
    using ok by (cases "json_Marshal L (snapshot store)") (simp_all add: saveToFile_def)
  have r0: "rand_Read E 0 0 (replicate 16 0) = Some ?salt"
    using ok blob
    by (cases "rand_fails E 0") (simp_all add: saveToFile_def rand_Read_def)
  obtain key where key: "deriveKey L (bytes_of pass) ?salt = Inr key"
    using ok blob r0
    by (cases "deriveKey L (bytes_of pass) ?salt") (simp_all add: saveToFile_def)
  obtain c where c: "aes_NewCipher L key = Some c"
    using ok blob r0 key
    by (cases "aes_NewCipher L key") (simp_all add: saveToFile_def)
  obtain g where g: "cipher_NewGCM L c = Some g"
    using ok blob r0 key c
    by (cases "cipher_NewGCM L c") (simp_all add: saveToFile_def)
  let ?nonce = "map (rand_bytes E) [16 ..< 16 + gcm_NonceSize g]"
  have r1: "rand_Read E 1 16 (replicate (gcm_NonceSize g) 0) = Some ?nonce"
    using ok blob r0 key c g
    by (cases "rand_fails E 1") (simp_all add: saveToFile_def rand_Read_def)
  let ?ct = "gcm_Seal g ?nonce blob"
  have op: "os_OpenFile E fs file = Some (fs(file \<mapsto> File []))"
    using ok blob r0 key c g r1
    by (cases "os_OpenFile E fs file")
      (auto simp: saveToFile_def os_OpenFile_def split: if_splits option.splits node.splits)
  let ?fs0 = "fs(file \<mapsto> File [])"
  have w0: "file_Write E 0 ?fs0 file ?salt = (fs(file \<mapsto> File ?salt), True)"
    using ok blob r0 key c g r1 op
    by (cases "write_fails E 0")
      (simp_all add: saveToFile_def file_Write_def file_content_def Let_def)
  let ?fs1 = "fs(file \<mapsto> File ?salt)"
  have w1: "file_Write E 1 ?fs1 file ?nonce = (fs(file \<mapsto> File (?salt @ ?nonce)), True)"
    using ok blob r0 key c g r1 op w0
    by (cases "write_fails E 1")
      (simp_all add: saveToFile_def file_Write_def file_content_def Let_def)
  let ?fs2 = "fs(file \<mapsto> File (?salt @ ?nonce))"
  have w2: "file_Write E 2 ?fs2 file ?ct = (fs(file \<mapsto> File (?salt @ ?nonce @ ?ct)), True)"
    using ok blob r0 key c g r1 op w0 w1
    by (cases "write_fails E 2")
      (simp_all add: saveToFile_def file_Write_def file_content_def Let_def)
  have "saveToFile L E fs store file pass =
       \<lparr>s_err = None, s_fs = fs(file \<mapsto> File (?salt @ ?nonce @ ?ct)),
        s_blob = Some (zero_bytes blob), s_key = Some (zero_bytes key)\<rparr>"
    using blob r0 key c g r1 op w0 w1 w2 by (simp add: saveToFile_def Let_def)
  with blob key c g show ?thesis by blast
qed

lemma load_of_layout:
  assumes f: "fs file = Some (File (salt @ nonce @ ct))" and rd: "\<not> read_fails E"
    and ls: "length salt = 16" and ln: "length nonce = 12"
  shows "loadFromFile L E fs store file pass =
     (case deriveKey L (bytes_of pass) salt of
        Inl e \<Rightarrow> \<lparr>l_err = Some e, l_store = store, l_pt = None, l_key = None\<rparr>
      | Inr key \<Rightarrow>
      case aes_NewCipher L key of
        None \<Rightarrow> \<lparr>l_err = Some CipherError, l_store = store, l_pt = None, l_key = Some key\<rparr>
      | Some c \<Rightarrow>
      case cipher_NewGCM L c of
        None \<Rightarrow> \<lparr>l_err = Some CipherError, l_store = store, l_pt = None, l_key = Some key\<rparr>
      | Some g \<Rightarrow>
      case gcm_Open g nonce ct of
        None \<Rightarrow> \<lparr>l_err = Some AuthError, l_store = store, l_pt = None, l_key = Some key\<rparr>
      | Some pt \<Rightarrow>
      case json_Unmarshal L pt of
        None \<Rightarrow> \<lparr>l_err = Some FormatError, l_store = store, l_pt = Some pt, l_key = Some key\<rparr>
      | Some m \<Rightarrow>
          \<lparr>l_err = None, l_store = replace store m, l_pt = Some (zero_bytes pt),
           l_key = Some (zero_bytes key)\<rparr>)"
proof -
  let ?d = "salt @ nonce @ ct"
  have rdf: "os_ReadFile E fs file = Some ?d"
    using f rd by (simp add: os_ReadFile_def)
  have len: "\<not> length ?d < 28" using ls ln by simp
  have s: "go_slice ?d 0 16 = salt" using ls by (simp add: go_slice_def)
  have n: "go_slice ?d 16 28 = nonce" using ls ln by (simp add: go_slice_def)
  have c: "drop 28 ?d = ct" using ls ln by simp
  show ?thesis
    unfolding loadFromFile_def rdf option.case if_not_P [OF len] Let_def s n c ..
qed

lemma save_then_load:
  assumes ok: "s_err (saveToFile L E fs S file P) = None"
    and n12: "gcm_nonce12 L" and aead: "gcm_opens_sealed L"
    and json: "\<And>blob. json_Marshal L (snapshot S) = Some blob \<Longrightarrow> json_Unmarshal L blob = Some m"
    and rd: "\<not> read_fails E'"
  shows "\<exists>pt key. loadFromFile L E' (s_fs (saveToFile L E fs S file P)) S0 file P =
       \<lparr>l_err = None, l_store = replace S0 m, l_pt = Some (zero_bytes pt),
        l_key = Some (zero_bytes key)\<rparr>"
proof -
  let ?salt = "map (rand_bytes E) [0 ..< 16]"
  obtain blob key c g where
    blob: "json_Marshal L (snapshot S) = Some blob" and
    key: "deriveKey L (bytes_of P) ?salt = Inr key" and
    c: "aes_NewCipher L key = Some c" and g: "cipher_NewGCM L c = Some g" and
    out: "saveToFile L E fs S file P =
       \<lparr>s_err = None,
        s_fs = fs(file \<mapsto> File (?salt
                  @ map (rand_bytes E) [16 ..< 16 + gcm_NonceSize g]
                  @ gcm_Seal g (map (rand_bytes E) [16 ..< 16 + gcm_NonceSize g]) blob)),
        s_blob = Some (zero_bytes blob), s_key = Some (zero_bytes key)\<rparr>"
    using save_ok_steps [OF ok] by blast
  let ?nonce = "map (rand_bytes E) [16 ..< 16 + gcm_NonceSize g]"
  let ?ct = "gcm_Seal g ?nonce blob"
  have ns: "gcm_NonceSize g = 12" using n12 g by (auto simp: gcm_nonce12_def)
  have opn: "gcm_Open g ?nonce ?ct = Some blob"
    using aead g by (auto simp: gcm_opens_sealed_def)
  have um: "json_Unmarshal L blob = Some m"
    using json blob by simp
  have f: "s_fs (saveToFile L E fs S file P) file = Some (File (?salt @ ?nonce @ ?ct))"
    by (simp add: out)
  have "loadFromFile L E' (s_fs (saveToFile L E fs S file P)) S0 file P =
       \<lparr>l_err = None, l_store = replace S0 m, l_pt = Some (zero_bytes blob),
        l_key = Some (zero_bytes key)\<rparr>"
    using load_of_layout [of "s_fs (saveToFile L E fs S file P)" "file" "?salt" "?nonce" "?ct" E' L S0 P]
      f rd key c g opn um by (simp add: ns)
  then show ?thesis by blast
qed

section \<open>The concrete library meets the contracts\<close>

lemma xor_bytes_zero: "xor_bytes x (replicate (length x) 0) = x"
  by (induction x) (simp_all add: xor_bytes_def)

lemma demo_hmac_len: "length (demo_hmac k d) = 64"
  by (simp add: demo_hmac_def min_def)

lemma demo_hmac_64: "length d = 64 \<Longrightarrow> demo_hmac k d = replicate 64 0"
  by (simp add: demo_hmac_def)

lemma demo_hmac_other: "length d \<noteq> 64 \<Longrightarrow> demo_hmac k d = take 64 (k @ replicate 64 1)"
  by (simp add: demo_hmac_def)

lemma demo_rfc_U:
  "length S \<noteq> 60 \<Longrightarrow>
   rfc_U demo_hmac P S i (Suc j) = (if j = 0 then take 64 (P @ replicate 64 1) else replicate 64 0)"
proof (induction j)
  case 0
  then have "length (S @ INT_32BE i) \<noteq> 64" by (simp add: INT_32BE_def)
  then show ?case by (simp add: demo_hmac_other del: take_append)
next
  case (Suc j)
  have "length (rfc_U demo_hmac P S i (Suc j)) = 64"
    by (rule length_rfc_U) (simp_all add: demo_hmac_len)
  then show ?case by (simp add: demo_hmac_64)
qed

lemma demo_rfc_T:
  "length S \<noteq> 60 \<Longrightarrow> rfc_T demo_hmac P S (Suc c) i = take 64 (P @ replicate 64 1)"
proof (induction c)
  case 0
  then have "rfc_U demo_hmac P S i (Suc 0) = take 64 (P @ replicate 64 1)"
    using demo_rfc_U [of S P i 0] by simp
  then show ?case by (simp only: rfc_T.simps)
next
  case (Suc c)
  have "length (take 64 (P @ replicate 64 (1::byte))) = 64" by (simp add: min_def)
  then have "xor_bytes (take 64 (P @ replicate 64 1)) (replicate 64 0)
        = take 64 (P @ replicate 64 1)"
    using xor_bytes_zero [of "take 64 (P @ replicate 64 1)"] by (simp only:)
  moreover have "rfc_U demo_hmac P S i (Suc (Suc c)) = replicate 64 0"
    using Suc.prems demo_rfc_U [of S P i "Suc c"] by simp
  moreover have "rfc_T demo_hmac P S (Suc c) i = take 64 (P @ replicate 64 1)"
    using Suc by simp
  ultimately show ?case by (simp only: rfc_T.simps)
qed

lemma demo_lib_hmac: "\<forall>k d. length (hmac_sha512 demo_lib k d) = 64"
  by (simp add: demo_lib_def demo_hmac_len)

lemma demo_deriveKey:
  assumes "length salt = 16"
  shows "deriveKey demo_lib pass salt = Inr (take 32 (pass @ replicate 64 1))"
proof -
  have "rfc_T demo_hmac pass salt (Suc 99999) 1 = take 64 (pass @ replicate 64 1)"
    by (rule demo_rfc_T) (simp add: assms)
  then have "rfc_DK (hmac_sha512 demo_lib) pass salt 100000 32 = take 32 (pass @ replicate 64 1)"
    by (simp add: rfc_DK_def rfc_blocks_def demo_lib_def del: take_append)
  then show ?thesis
    using deriveKey_rfc [OF demo_lib_hmac, of pass salt] by simp
qed

lemma demo_nonce12: "gcm_nonce12 demo_lib"
  by (simp add: gcm_nonce12_def demo_lib_def demo_aead_def)

lemma demo_opens_sealed: "gcm_opens_sealed demo_lib"
  by (auto simp: gcm_opens_sealed_def demo_lib_def demo_aead_def)

lemmas demo_eval =
  demo_lib_def demo_env_def demo_aead_def demo_Marshal_def demo_Unmarshal_def demo_enc_def
  bytes_of_def string_of_def char_of_def bit_0

lemma snapshot_set_kv: "snapshot (set_kv k key v) = (snapshot k)(key \<mapsto> v)"
  by (simp add: snapshot_def set_kv_def fun_eq_iff)

lemma snapshot_newKV: "snapshot newKV = Map.empty"
  by (simp add: snapshot_def newKV_def)

lemma zero_bytes_replicate: "zero_bytes b = replicate (length b) 0"
  by (induction b) simp_all

lemma demo_rand_Read:
  "rand_Read demo_env n off b = Some (map (rand_bytes demo_env) [off ..< off + length b])"
  by (simp add: rand_Read_def demo_env_def)

lemma demo_file_Write:
  "file_Write demo_env n fs file b = (fs(file \<mapsto> File (file_content fs file @ b)), True)"
  by (simp add: file_Write_def demo_env_def)

lemma demo_key_len: "length (take 32 (pass @ replicate 64 (1 :: byte))) = 32"
  by (simp add: min_def) linarith

lemma demo_save:
  assumes "fs file \<noteq> Some Dir" and "json_Marshal demo_lib (snapshot S) = Some blob"
  shows "saveToFile demo_lib demo_env fs S file P =
     \<lparr>s_err = None,
      s_fs = fs(file \<mapsto> File (map (rand_bytes demo_env) [0 ..< 16]
                @ map (rand_bytes demo_env) [16 ..< 28]
                @ blob @ take 16 (take 32 (bytes_of P @ replicate 64 1) @ replicate 16 0))),
      s_blob = Some (zero_bytes blob),
      s_key = Some (zero_bytes (take 32 (bytes_of P @ replicate 64 1)))\<rparr>"
proof -
  define key where "key = take 32 (bytes_of P @ replicate 64 1)"
  have k: "deriveKey demo_lib (bytes_of P) (map (rand_bytes demo_env) [0 ..< 16]) = Inr key"
    unfolding key_def by (rule demo_deriveKey) simp
  have "length key = 32" unfolding key_def by (rule demo_key_len)
  then have c: "aes_NewCipher demo_lib key = Some key"
    by (simp add: demo_lib_def)
  have g: "cipher_NewGCM demo_lib key = Some (demo_aead key)"
    by (simp add: demo_lib_def)
  have ns: "gcm_NonceSize (demo_aead key) = 12"
    and sl: "gcm_Seal (demo_aead key) nonce blob = blob @ take 16 (key @ replicate 16 0)" for nonce
    by (simp_all add: demo_aead_def)
  have op: "os_OpenFile demo_env fs file = Some (fs(file \<mapsto> File []))"
    using assms by (auto simp: os_OpenFile_def demo_env_def split: option.splits node.splits)
  show ?thesis
    unfolding key_def [symmetric]
    by (simp add: saveToFile_def Let_def assms(2) k c g ns sl op demo_rand_Read demo_file_Write
        file_content_def del: take_append)
qed

lemma demo_load:
  assumes f: "fs file = Some (File (salt @ nonce @ ct))"
    and ls: "length salt = 16" and ln: "length nonce = 12"
  shows "loadFromFile demo_lib demo_env fs store file P =
     (case gcm_Open (demo_aead (take 32 (bytes_of P @ replicate 64 1))) nonce ct of
        None \<Rightarrow> \<lparr>l_err = Some AuthError, l_store = store, l_pt = None,
                  l_key = Some (take 32 (bytes_of P @ replicate 64 1))\<rparr>
      | Some pt \<Rightarrow>
      case json_Unmarshal demo_lib pt of
        None \<Rightarrow> \<lparr>l_err = Some FormatError, l_store = store, l_pt = Some pt,
                  l_key = Some (take 32 (bytes_of P @ replicate 64 1))\<rparr>
      | Some m \<Rightarrow>
          \<lparr>l_err = None, l_store = replace store m, l_pt = Some (zero_bytes pt),
           l_key = Some (zero_bytes (take 32 (bytes_of P @ replicate 64 1)))\<rparr>)"
proof -
  define key where "key = take 32 (bytes_of P @ replicate 64 1)"
  have k: "deriveKey demo_lib (bytes_of P) salt = Inr key"
    unfolding key_def by (rule demo_deriveKey) (rule ls)
  have "length key = 32" unfolding key_def by (rule demo_key_len)
  then have c: "aes_NewCipher demo_lib key = Some key"
    by (simp add: demo_lib_def)
  have g: "cipher_NewGCM demo_lib key = Some (demo_aead key)"
    by (simp add: demo_lib_def)
  have rd: "\<not> read_fails demo_env" by (simp add: demo_env_def)
  show ?thesis
    unfolding key_def [symmetric]
    by (simp add: load_of_layout [of fs "file" salt nonce ct demo_env demo_lib store P, OF f rd ls ln]
        k c g)
qed

section \<open>Claims about the key derivation\<close>

lemma rfc_pbkdf2_in_range:
  "dkLen \<le> (2 ^ 32 - 1) * 64 \<Longrightarrow> rfc_pbkdf2 h P S c dkLen = Some (rfc_DK h P S c dkLen)"
  by (simp add: rfc_pbkdf2_def)

lemma concat_replicate_blocks:
  "concat (map (\<lambda>i. replicate n x) xs) = replicate (n * length xs) x"
  by (induction xs) (simp_all add: replicate_add)

lemma demo_rfc_DK:
  "length S \<noteq> 60 \<Longrightarrow>
   rfc_DK demo_hmac P S (Suc c) dkLen
   = take dkLen (concat (replicate (rfc_blocks dkLen) (take 64 (P @ replicate 64 1))))"
proof -
  assume "length S \<noteq> 60"
  then have "map (rfc_T demo_hmac P S (Suc c)) xs = map (\<lambda>i. take 64 (P @ replicate 64 1)) xs"
    for xs
    by (simp add: demo_rfc_T del: take_append)
  then show ?thesis
    by (simp add: rfc_DK_def map_replicate_const del: take_append upt_Suc)
qed

lemma demo_DK_70:
  "rfc_DK demo_hmac [1, 2] [3] (Suc 1) 70 = [1, 2] @ replicate 62 1 @ [1, 2] @ replicate 4 1"
proof -
  have b: "rfc_blocks 70 = Suc (Suc 0)"
    by (simp add: rfc_blocks_def)
  have t: "take 64 ([1, 2] @ replicate 64 (1 :: byte)) = [1, 2] @ replicate 62 1"
    by simp
  have "rfc_DK demo_hmac [1, 2] [3] (Suc 1) 70
        = take 70 (concat (replicate (rfc_blocks 70) (take 64 ([1, 2] @ replicate 64 1))))"
    by (rule demo_rfc_DK) simp
  also have "\<dots> = [1, 2] @ replicate 62 1 @ [1, 2] @ replicate 4 1"
    unfolding b t by simp
  finally show ?thesis .
qed

lemma concat_replicate_64: "concat (replicate n (replicate 64 x)) = replicate (64 * n) x"
  using concat_replicate_blocks [of 64 x "replicate n ()"] by (simp add: map_replicate_const)

lemma demo_past_range:
  "pbkdf2sha512 demo_lib [] [] 1 274877906881 = Inr (replicate 274877906881 1)"
proof -
  have h: "hmac_sha512 demo_lib = demo_hmac"
    by (simp add: demo_lib_def)
  have n: "nat 1 = Suc 0" "nat 274877906881 = 274877906881"
    by simp_all
  have b: "rfc_blocks 274877906881 = 4294967296"
    by (simp add: rfc_blocks_def)
  have t: "take 64 ([] @ replicate 64 (1 :: byte)) = replicate 64 1"
    by simp
  have m: "min (274877906881 :: nat) (64 * 4294967296) = 274877906881"
    by simp
  have "pbkdf2sha512 demo_lib [] [] 1 274877906881
        = Inr (rfc_DK (hmac_sha512 demo_lib) [] [] (nat 1) (nat 274877906881))"
    by (rule pbkdf2sha512_rfc [OF demo_lib_hmac]) simp_all
  moreover have "rfc_DK demo_hmac [] [] (Suc 0) 274877906881
        = take 274877906881 (concat (replicate (rfc_blocks 274877906881)
            (take 64 ([] @ replicate 64 1))))"
    by (rule demo_rfc_DK) simp
  ultimately show ?thesis
    by (simp only: h n b t concat_replicate_64 take_replicate m)
qed

text \<open>
  Claim C6, as amended. For every password, salt, iteration count \<open>iter \<ge> 1\<close> and
  output length \<open>dkLen\<close> with \<open>1 \<le> dkLen \<le> (2\<^sup>3\<^sup>2 - 1) * 64\<close>, the lengths for which
  RFC 8018 defines a derived key, and HMAC-SHA512 returning 64 bytes, \<open>pbkdf2sha512\<close>
  returns (without a panic) the PBKDF2 of RFC 8018 with the library's HMAC-SHA512 as
  pseudorandom function: the blocks \<open>T\<^sub>1, T\<^sub>2, ...\<close> concatenated and cut to \<open>dkLen\<close>
  bytes. The claim as stated has no upper bound on \<open>dkLen\<close>. The counterexample below
  has two lengths past the bound. At \<open>dkLen = (2\<^sup>3\<^sup>2 - 1) * 64 + 1\<close> the standard has no
  derived key (\<open>derived key too long\<close>) where \<open>pbkdf2sha512\<close> returns one, made with a
  block index that no longer fits four bytes. At \<open>dkLen = 2\<^sup>6\<^sup>3 - 1\<close> the sum
  \<^verbatim>\<open>dkLen + hLen - 1\<close> wraps around to a negative number, the loop does not run and
  \<^verbatim>\<open>dk[:dkLen]\<close> panics, so \<open>pbkdf2sha512\<close> returns nothing at all.
\<close>

theorem pbkdf2sha512_is_rfc8018_pbkdf2:
  assumes "\<forall>k d. length (hmac_sha512 L k d) = 64"
    and "1 \<le> iter" and "1 \<le> dkLen" and "dkLen \<le> (2 ^ 32 - 1) * 64"
  shows "\<exists>dk. rfc_pbkdf2 (hmac_sha512 L) password salt (nat iter) (nat dkLen) = Some dk \<and>
              pbkdf2sha512 L password salt iter dkLen = Inr dk \<and>
              length dk = nat dkLen"
proof -
  let ?dk = "rfc_DK (hmac_sha512 L) password salt (nat iter) (nat dkLen)"
  have "nat dkLen \<le> (2 ^ 32 - 1) * 64"
    using assms(3,4) by simp
  then have r: "rfc_pbkdf2 (hmac_sha512 L) password salt (nat iter) (nat dkLen) = Some ?dk"
    by (rule rfc_pbkdf2_in_range)
  have "dkLen \<le> 2 ^ 63 - 64"
    using assms(4) by simp
  then have c: "pbkdf2sha512 L password salt iter dkLen = Inr ?dk"
    using assms(1,2,3) by (intro pbkdf2sha512_rfc)
  have l: "length ?dk = nat dkLen"
    using assms(1,2) by (intro length_rfc_DK) simp_all
  from r c l show ?thesis by blast
qed

theorem pbkdf2sha512_is_rfc8018_pbkdf2_witness:
  "(\<forall>k d. length (hmac_sha512 demo_lib k d) = 64) \<and> (1::int) \<le> 2 \<and> (1::int) \<le> 70 \<and>
   (70::int) \<le> (2 ^ 32 - 1) * 64 \<and>
   rfc_pbkdf2 (hmac_sha512 demo_lib) [1, 2] [3] (nat 2) (nat 70)
     = Some ([1, 2] @ replicate 62 1 @ [1, 2] @ replicate 4 1) \<and>
   pbkdf2sha512 demo_lib [1, 2] [3] 2 70 = Inr ([1, 2] @ replicate 62 1 @ [1, 2] @ replicate 4 1) \<and>
   length ([1, 2] @ replicate 62 1 @ [1, 2] @ replicate 4 (1 :: byte)) = nat 70"
proof -
  have h: "hmac_sha512 demo_lib = demo_hmac"
    by (simp add: demo_lib_def)
  have n: "nat 2 = Suc 1" "nat 70 = 70"
    by simp_all
  have le: "(70::int) \<le> (2 ^ 32 - 1) * 64" and le': "(70::nat) \<le> (2 ^ 32 - 1) * 64"
    by simp_all
  have r: "rfc_pbkdf2 (hmac_sha512 demo_lib) [1, 2] [3] (nat 2) (nat 70)
        = Some ([1, 2] @ replicate 62 1 @ [1, 2] @ replicate 4 1)"
    unfolding h n using le' by (simp only: rfc_pbkdf2_in_range demo_DK_70)
  obtain dk where
    "rfc_pbkdf2 (hmac_sha512 demo_lib) [1, 2] [3] (nat 2) (nat 70) = Some dk"
    "pbkdf2sha512 demo_lib [1, 2] [3] 2 70 = Inr dk" "length dk = nat 70"
    using pbkdf2sha512_is_rfc8018_pbkdf2 [OF demo_lib_hmac _ _ le, of 2 "[1, 2]" "[3]"]
    by auto
  with r have "pbkdf2sha512 demo_lib [1, 2] [3] 2 70
        = Inr ([1, 2] @ replicate 62 1 @ [1, 2] @ replicate 4 1)"
    and "length ([1, 2] @ replicate 62 1 @ [1, 2] @ replicate 4 (1 :: byte)) = nat 70"
    by simp_all
  with r le demo_lib_hmac show ?thesis
    by (simp only: simp_thms) simp
qed

theorem pbkdf2sha512_past_rfc_range_counterexample:
  "pbkdf2sha512 demo_lib [] [] 1 274877906881 = Inr (replicate 274877906881 1) \<and>
   rfc_pbkdf2 (hmac_sha512 demo_lib) [] [] 1 274877906881 = None \<and>
   pbkdf2sha512 demo_lib [] [] 1 9223372036854775807 = Inl Panic \<and>
   rfc_pbkdf2 (hmac_sha512 demo_lib) [] [] 1 9223372036854775807 = None"
proof -
  have "go_quot (wrap64 (wrap64 (9223372036854775807 + hLen) - 1)) hLen = - 144115188075855871"
    by (simp add: wrap64_def go_quot_def hLen_def)
  then have b: "pbkdf2sha512 demo_lib [] [] 1 9223372036854775807 = Inl Panic"
    by (simp add: pbkdf2sha512_def block_loop.simps)
  have c: "rfc_pbkdf2 h P S c 274877906881 = None" "rfc_pbkdf2 h P S c 9223372036854775807 = None"
    for h P S c
    by (simp_all add: rfc_pbkdf2_def)
  show ?thesis
    by (simp only: demo_past_range b c simp_thms)
qed

text \<open>
  Claim C5. With HMAC-SHA512 returning 64 bytes, \<open>deriveKey\<close> returns a key for every
  password and salt, the key is exactly 32 bytes long and is the PBKDF2 of RFC 8018 with
  the library's HMAC-SHA512 as pseudorandom function and 100000 iterations, cut to 32
  bytes; and it is deterministic: the result is a function of the password and the salt
  that depends on nothing else but the hash (two libraries with the same HMAC give the
  same key, whatever else differs).
\<close>

theorem deriveKey_deterministic_32_bytes:
  assumes "\<forall>k d. length (hmac_sha512 L k d) = 64"
  shows "(\<exists>key. deriveKey L pass salt = Inr key \<and> length key = 32 \<and>
            rfc_pbkdf2 (hmac_sha512 L) pass salt 100000 32 = Some key) \<and>
         (\<forall>L' :: 'c stdlib. hmac_sha512 L' = hmac_sha512 L \<longrightarrow>
            deriveKey L' pass salt = deriveKey L pass salt)"
proof -
  have a: "deriveKey L pass salt = Inr (rfc_DK (hmac_sha512 L) pass salt 100000 32)"
    by (rule deriveKey_rfc [OF assms])
  have b: "length (rfc_DK (hmac_sha512 L) pass salt 100000 32) = 32"
    by (rule length_rfc_DK [OF assms]) simp
  have r: "rfc_pbkdf2 (hmac_sha512 L) pass salt 100000 32
           = Some (rfc_DK (hmac_sha512 L) pass salt 100000 32)"
    by (rule rfc_pbkdf2_in_range) simp
  have c: "deriveKey L' pass salt = deriveKey L pass salt"
    if "hmac_sha512 L' = hmac_sha512 L" for L' :: "'c stdlib"
    using deriveKey_rfc [of L' pass salt] deriveKey_rfc [OF assms, of pass salt] assms that
    by simp
  from a b r c show ?thesis by blast
qed

theorem deriveKey_deterministic_32_bytes_witness:
  "(\<forall>k d. length (hmac_sha512 demo_lib k d) = 64) \<and>
   (\<exists>key. deriveKey demo_lib (bytes_of ''secret'') (replicate 16 7) = Inr key \<and>
      length key = 32 \<and>
      rfc_pbkdf2 (hmac_sha512 demo_lib) (bytes_of ''secret'') (replicate 16 7) 100000 32
        = Some key) \<and>
   hmac_sha512 (demo_lib\<lparr>json_Marshal := \<lambda>m. None\<rparr>) = hmac_sha512 demo_lib \<and>
   deriveKey (demo_lib\<lparr>json_Marshal := \<lambda>m. None\<rparr>) (bytes_of ''secret'') (replicate 16 7)
     = deriveKey demo_lib (bytes_of ''secret'') (replicate 16 7)"
proof -
  note th = deriveKey_deterministic_32_bytes [OF demo_lib_hmac,
      of "bytes_of ''secret''" "replicate 16 7"]
  have e: "hmac_sha512 (demo_lib\<lparr>json_Marshal := \<lambda>m. None\<rparr>) = hmac_sha512 demo_lib"
    by simp
  from th have "deriveKey (demo_lib\<lparr>json_Marshal := \<lambda>m. None\<rparr>) (bytes_of ''secret'')
      (replicate 16 7) = deriveKey demo_lib (bytes_of ''secret'') (replicate 16 7)"
    using e by blast
  with th e demo_lib_hmac show ?thesis by blast
qed

section \<open>Claims about loading and saving\<close>

lemma load_long:
  assumes rdf: "os_ReadFile E fs file = Some d" and len: "28 \<le> length d"
  shows "loadFromFile L E fs store file pass =
     (case deriveKey L (bytes_of pass) (take 16 d) of
        Inl e \<Rightarrow> \<lparr>l_err = Some e, l_store = store, l_pt = None, l_key = None\<rparr>
      | Inr key \<Rightarrow>
      case aes_NewCipher L key of
        None \<Rightarrow> \<lparr>l_err = Some CipherError, l_store = store, l_pt = None, l_key = Some key\<rparr>
      | Some c \<Rightarrow>
      case cipher_NewGCM L c of
        None \<Rightarrow> \<lparr>l_err = Some CipherError, l_store = store, l_pt = None, l_key = Some key\<rparr>
      | Some g \<Rightarrow>
      case gcm_Open g (take 12 (drop 16 d)) (drop 28 d) of
        None \<Rightarrow> \<lparr>l_err = Some AuthError, l_store = store, l_pt = None, l_key = Some key\<rparr>
      | Some pt \<Rightarrow>
      case json_Unmarshal L pt of
        None \<Rightarrow> \<lparr>l_err = Some FormatError, l_store = store, l_pt = Some pt, l_key = Some key\<rparr>
      | Some m \<Rightarrow>
          \<lparr>l_err = None, l_store = replace store m, l_pt = Some (zero_bytes pt),
           l_key = Some (zero_bytes key)\<rparr>)"
proof -
  have n: "\<not> length d < 28" using len by simp
  have s: "go_slice d 0 16 = take 16 d" and m: "go_slice d 16 28 = take 12 (drop 16 d)"
    by (simp_all add: go_slice_def)
  show ?thesis
    unfolding loadFromFile_def rdf option.case if_not_P [OF n] Let_def s m ..
qed

lemma load_short:
  assumes rdf: "os_ReadFile E fs file = Some d" and len: "length d < 28"
  shows "loadFromFile L E fs store file pass =
     \<lparr>l_err = Some InvalidFile, l_store = store, l_pt = None, l_key = None\<rparr>"
  by (simp add: loadFromFile_def rdf len)

text \<open>
  Claim C7. For every readable file with content \<open>d\<close> and every password: when \<open>d\<close> is
  shorter than 28 bytes, \<open>loadFromFile\<close> returns the invalid-file error, the store is
  as before, and neither a key nor a plaintext buffer exists at the return (no key was
  derived, nothing was decrypted; the result does not depend on the library at all).
  When \<open>d\<close> has at least 28 bytes the error is never the invalid-file error and the
  run goes on to the key derivation: whenever that returns a key, a key buffer exists
  at the return.
\<close>

theorem load_short_file_is_invalid:
  assumes "os_ReadFile E fs file = Some d"
  shows "(length d < 28 \<longrightarrow>
            loadFromFile L E fs store file pass =
              \<lparr>l_err = Some InvalidFile, l_store = store, l_pt = None, l_key = None\<rparr>) \<and>
         (28 \<le> length d \<longrightarrow>
            l_err (loadFromFile L E fs store file pass) \<noteq> Some InvalidFile \<and>
            (\<forall>key. deriveKey L (bytes_of pass) (take 16 d) = Inr key \<longrightarrow>
               l_key (loadFromFile L E fs store file pass) \<noteq> None))"
proof (intro conjI impI allI)
  assume "length d < 28"
  then show "loadFromFile L E fs store file pass =
      \<lparr>l_err = Some InvalidFile, l_store = store, l_pt = None, l_key = None\<rparr>"
    by (rule load_short [OF assms])
next
  assume len: "28 \<le> length d"
  show "l_err (loadFromFile L E fs store file pass) \<noteq> Some InvalidFile"
    unfolding load_long [OF assms len]
    by (auto split: sum.splits option.splits dest: deriveKey_err)
next
  fix key
  assume len: "28 \<le> length d" and "deriveKey L (bytes_of pass) (take 16 d) = Inr key"
  then show "l_key (loadFromFile L E fs store file pass) \<noteq> None"
    unfolding load_long [OF assms len]
    by (auto split: option.splits)
qed

theorem load_short_file_is_invalid_witness:
  "os_ReadFile demo_env [''bad.bin'' \<mapsto> File (bytes_of ''short'')] ''bad.bin''
     = Some (bytes_of ''short'') \<and>
   length (bytes_of ''short'') < 28 \<and>
   loadFromFile demo_lib demo_env [''bad.bin'' \<mapsto> File (bytes_of ''short'')] newKV ''bad.bin'' ''123''
     = \<lparr>l_err = Some InvalidFile, l_store = newKV, l_pt = None, l_key = None\<rparr> \<and>
   os_ReadFile demo_env [''db'' \<mapsto> File (replicate 28 0)] ''db'' = Some (replicate 28 0) \<and>
   28 \<le> length (replicate 28 (0 :: byte)) \<and>
   l_err (loadFromFile demo_lib demo_env [''db'' \<mapsto> File (replicate 28 0)] newKV ''db'' ''123'')
     \<noteq> Some InvalidFile \<and>
   deriveKey demo_lib (bytes_of ''123'') (take 16 (replicate 28 0))
     = Inr (take 32 (bytes_of ''123'' @ replicate 64 1)) \<and>
   l_key (loadFromFile demo_lib demo_env [''db'' \<mapsto> File (replicate 28 0)] newKV ''db'' ''123'')
     \<noteq> None"
proof -
  have r1: "os_ReadFile demo_env [''bad.bin'' \<mapsto> File (bytes_of ''short'')] ''bad.bin''
     = Some (bytes_of ''short'')"
    and r2: "os_ReadFile demo_env [''db'' \<mapsto> File (replicate 28 0)] ''db'' = Some (replicate 28 0)"
    by (simp_all add: os_ReadFile_def demo_env_def)
  have l1: "length (bytes_of ''short'') < 28" by (simp add: bytes_of_def)
  have k: "deriveKey demo_lib (bytes_of ''123'') (take 16 (replicate 28 0))
     = Inr (take 32 (bytes_of ''123'' @ replicate 64 1))"
    by (rule demo_deriveKey) simp
  show ?thesis
    using load_short_file_is_invalid [OF r1, of demo_lib newKV "''123''"]
      load_short_file_is_invalid [OF r2, of demo_lib newKV "''123''"] r1 r2 l1 k
    by simp
qed

text \<open>
  Claim C2. For every store, file system, path and password: when \<open>loadFromFile\<close>
  returns an error, the store afterwards is the store before; and when it returns no
  error, the file was read, had at least 28 bytes, the key was derived, the cipher and
  the AEAD were made, the ciphertext opened and the plaintext parsed into a mapping
  \<open>m\<close>, and the store afterwards is \<open>replace store m\<close>: \<open>replace\<close> runs only after
  all these steps succeeded.
\<close>

theorem load_failure_leaves_store:
  "(l_err (loadFromFile L E fs store file pass) \<noteq> None \<longrightarrow>
      l_store (loadFromFile L E fs store file pass) = store) \<and>
   (l_err (loadFromFile L E fs store file pass) = None \<longrightarrow>
      (\<exists>d key c g pt m.
         os_ReadFile E fs file = Some d \<and> 28 \<le> length d \<and>
         deriveKey L (bytes_of pass) (take 16 d) = Inr key \<and>
         aes_NewCipher L key = Some c \<and> cipher_NewGCM L c = Some g \<and>
         gcm_Open g (take 12 (drop 16 d)) (drop 28 d) = Some pt \<and>
         json_Unmarshal L pt = Some m \<and>
         l_store (loadFromFile L E fs store file pass) = replace store m))"
proof (intro conjI impI)
  assume "l_err (loadFromFile L E fs store file pass) \<noteq> None"
  then show "l_store (loadFromFile L E fs store file pass) = store"
    by (rule load_error_store)
next
  assume "l_err (loadFromFile L E fs store file pass) = None"
  from load_ok_steps [OF this] show "\<exists>d key c g pt m.
         os_ReadFile E fs file = Some d \<and> 28 \<le> length d \<and>
         deriveKey L (bytes_of pass) (take 16 d) = Inr key \<and>
         aes_NewCipher L key = Some c \<and> cipher_NewGCM L c = Some g \<and>
         gcm_Open g (take 12 (drop 16 d)) (drop 28 d) = Some pt \<and>
         json_Unmarshal L pt = Some m \<and>
         l_store (loadFromFile L E fs store file pass) = replace store m"
    by (fastforce simp: go_slice_def)
qed

lemma demo_marshal_x42:
  "json_Marshal demo_lib (snapshot (set_kv newKV ''x'' ''42'')) = Some [1, 120, 2, 52, 50]"
  by (simp add: snapshot_set_kv snapshot_newKV demo_eval)

lemma demo_unmarshal_x42:
  "json_Unmarshal demo_lib [1, 120, 2, 52, 50] = Some [''x'' \<mapsto> ''42'']"
  by (simp add: demo_eval)

lemma demo_fs_x42:
  "s_fs (saveToFile demo_lib demo_env Map.empty (set_kv newKV ''x'' ''42'') ''db'' ''good'') ''db''
   = Some (File (map (rand_bytes demo_env) [0 ..< 16] @ map (rand_bytes demo_env) [16 ..< 28]
        @ [1, 120, 2, 52, 50] @ take 16 (take 32 (bytes_of ''good'' @ replicate 64 1) @ replicate 16 0)))"
  by (simp add: demo_save [OF _ demo_marshal_x42])

lemma demo_load_bad:
  "loadFromFile demo_lib demo_env
     (s_fs (saveToFile demo_lib demo_env Map.empty (set_kv newKV ''x'' ''42'') ''db'' ''good''))
     store ''db'' ''bad''
   = \<lparr>l_err = Some AuthError, l_store = store, l_pt = None,
      l_key = Some (take 32 (bytes_of ''bad'' @ replicate 64 1))\<rparr>"
proof -
  have "gcm_Open (demo_aead (take 32 (bytes_of ''bad'' @ replicate 64 1)))
          (map (rand_bytes demo_env) [16 ..< 28])
          ([1, 120, 2, 52, 50] @ take 16 (take 32 (bytes_of ''good'' @ replicate 64 1) @ replicate 16 0))
        = None"
    by (simp add: demo_aead_def bytes_of_def)
  then show ?thesis
    using demo_fs_x42 demo_load [of
        "s_fs (saveToFile demo_lib demo_env Map.empty (set_kv newKV ''x'' ''42'') ''db'' ''good'')"
        "''db''" "map (rand_bytes demo_env) [0 ..< 16]" "map (rand_bytes demo_env) [16 ..< 28]"
        "[1, 120, 2, 52, 50] @ take 16 (take 32 (bytes_of ''good'' @ replicate 64 1) @ replicate 16 0)"
        store "''bad''"]
    by simp
qed

lemma demo_load_good:
  "loadFromFile demo_lib demo_env
     (s_fs (saveToFile demo_lib demo_env Map.empty (set_kv newKV ''x'' ''42'') ''db'' ''good''))
     store ''db'' ''good''
   = \<lparr>l_err = None, l_store = replace store [''x'' \<mapsto> ''42''],
      l_pt = Some (zero_bytes [1, 120, 2, 52, 50]),
      l_key = Some (zero_bytes (take 32 (bytes_of ''good'' @ replicate 64 1)))\<rparr>"
proof -
  have "gcm_Open (demo_aead (take 32 (bytes_of ''good'' @ replicate 64 1)))
          (map (rand_bytes demo_env) [16 ..< 28])
          ([1, 120, 2, 52, 50] @ take 16 (take 32 (bytes_of ''good'' @ replicate 64 1) @ replicate 16 0))
        = Some [1, 120, 2, 52, 50]"
    by (simp add: demo_aead_def bytes_of_def)
  then show ?thesis
    using demo_fs_x42 demo_load [of
        "s_fs (saveToFile demo_lib demo_env Map.empty (set_kv newKV ''x'' ''42'') ''db'' ''good'')"
        "''db''" "map (rand_bytes demo_env) [0 ..< 16]" "map (rand_bytes demo_env) [16 ..< 28]"
        "[1, 120, 2, 52, 50] @ take 16 (take 32 (bytes_of ''good'' @ replicate 64 1) @ replicate 16 0)"
        store "''good''"]
    by (simp add: demo_unmarshal_x42)
qed

theorem load_failure_leaves_store_witness:
  "l_err (loadFromFile demo_lib demo_env
       (s_fs (saveToFile demo_lib demo_env Map.empty (set_kv newKV ''x'' ''42'') ''db'' ''good''))
       (set_kv newKV ''old'' ''v'') ''db'' ''bad'') \<noteq> None \<and>
   l_store (loadFromFile demo_lib demo_env
       (s_fs (saveToFile demo_lib demo_env Map.empty (set_kv newKV ''x'' ''42'') ''db'' ''good''))
       (set_kv newKV ''old'' ''v'') ''db'' ''bad'') = set_kv newKV ''old'' ''v'' \<and>
   l_err (loadFromFile demo_lib demo_env
       (s_fs (saveToFile demo_lib demo_env Map.empty (set_kv newKV ''x'' ''42'') ''db'' ''good''))
       (set_kv newKV ''old'' ''v'') ''db'' ''good'') = None \<and>
   (\<exists>d key c g pt m.
      os_ReadFile demo_env
        (s_fs (saveToFile demo_lib demo_env Map.empty (set_kv newKV ''x'' ''42'') ''db'' ''good''))
        ''db'' = Some d \<and> 28 \<le> length d \<and>
      deriveKey demo_lib (bytes_of ''good'') (take 16 d) = Inr key \<and>
      aes_NewCipher demo_lib key = Some c \<and> cipher_NewGCM demo_lib c = Some g \<and>
      gcm_Open g (take 12 (drop 16 d)) (drop 28 d) = Some pt \<and>
      json_Unmarshal demo_lib pt = Some m \<and>
      l_store (loadFromFile demo_lib demo_env
        (s_fs (saveToFile demo_lib demo_env Map.empty (set_kv newKV ''x'' ''42'') ''db'' ''good''))
        (set_kv newKV ''old'' ''v'') ''db'' ''good'') = replace (set_kv newKV ''old'' ''v'') m)"
proof -
  let ?fs = "s_fs (saveToFile demo_lib demo_env Map.empty (set_kv newKV ''x'' ''42'') ''db'' ''good'')"
  let ?S0 = "set_kv newKV ''old'' ''v''"
  have bad: "l_err (loadFromFile demo_lib demo_env ?fs ?S0 ''db'' ''bad'') \<noteq> None"
    by (simp add: demo_load_bad)
  have good: "l_err (loadFromFile demo_lib demo_env ?fs ?S0 ''db'' ''good'') = None"
    by (simp add: demo_load_good)
  show ?thesis
    using load_failure_leaves_store [of demo_lib demo_env ?fs ?S0 "''db''" "''bad''"]
      load_failure_leaves_store [of demo_lib demo_env ?fs ?S0 "''db''" "''good''"] bad good
    by blast
qed

lemma demo_save_to_dir:
  "saveToFile demo_lib demo_env [''dir'' \<mapsto> Dir] (set_kv newKV ''x'' ''42'') ''dir'' ''pwd''
   = \<lparr>s_err = Some IOError, s_fs = [''dir'' \<mapsto> Dir], s_blob = Some [1, 120, 2, 52, 50],
      s_key = Some (take 32 (bytes_of ''pwd'' @ replicate 64 1))\<rparr>"
proof -
  define key where "key = take 32 (bytes_of ''pwd'' @ replicate 64 1)"
  have k: "deriveKey demo_lib (bytes_of ''pwd'') (map (rand_bytes demo_env) [0 ..< 16]) = Inr key"
    unfolding key_def by (rule demo_deriveKey) simp
  have "length key = 32" unfolding key_def by (rule demo_key_len)
  then have c: "aes_NewCipher demo_lib key = Some key"
    by (simp add: demo_lib_def)
  have g: "cipher_NewGCM demo_lib key = Some (demo_aead key)"
    by (simp add: demo_lib_def)
  have op: "os_OpenFile demo_env [''dir'' \<mapsto> Dir] ''dir'' = None"
    by (simp add: os_OpenFile_def)
  show ?thesis
    unfolding key_def [symmetric]
    by (simp add: saveToFile_def Let_def demo_marshal_x42 k c g op demo_rand_Read)
qed

text \<open>
  Claim C4 says that both functions zero the plaintext buffer and the derived key on
  every return path. The code zeroes them only before the final \<^verbatim>\<open>return nil\<close>. The
  theorem runs two error paths on the concrete library: \<open>loadFromFile\<close> with a wrong
  password returns the authentication error with the derived key still in its buffer,
  and \<open>saveToFile\<close> to a path that is a directory returns the I/O error with both the
  serialized plaintext and the derived key still in their buffers.
\<close>

theorem error_returns_leave_buffers_not_zeroed:
  "loadFromFile demo_lib demo_env
     (s_fs (saveToFile demo_lib demo_env Map.empty (set_kv newKV ''x'' ''42'') ''db'' ''good''))
     newKV ''db'' ''bad''
   = \<lparr>l_err = Some AuthError, l_store = newKV, l_pt = None,
      l_key = Some (bytes_of ''bad'' @ replicate 29 1)\<rparr> \<and>
   bytes_of ''bad'' @ replicate 29 1 \<noteq> zero_bytes (bytes_of ''bad'' @ replicate 29 1) \<and>
   saveToFile demo_lib demo_env [''dir'' \<mapsto> Dir] (set_kv newKV ''x'' ''42'') ''dir'' ''pwd''
   = \<lparr>s_err = Some IOError, s_fs = [''dir'' \<mapsto> Dir], s_blob = Some [1, 120, 2, 52, 50],
      s_key = Some (bytes_of ''pwd'' @ replicate 29 1)\<rparr> \<and>
   [1, 120, 2, 52, 50] \<noteq> zero_bytes [1, 120, 2, 52, 50 :: byte] \<and>
   bytes_of ''pwd'' @ replicate 29 1 \<noteq> zero_bytes (bytes_of ''pwd'' @ replicate 29 1)"
  by (simp add: demo_load_bad demo_save_to_dir bytes_of_def)

text \<open>
  Claim C10. When \<open>saveToFile\<close> succeeds (and the AEAD has the standard nonce size
  12), the file it wrote holds exactly the 16 random bytes of the salt, then the 12
  random bytes of the nonce, then the output of \<^verbatim>\<open>Seal\<close> (ciphertext with its tag) for
  the serialized snapshot under the key derived from the password and that salt, and
  nothing else. And \<open>loadFromFile\<close> reads a file at those offsets: on a readable file
  made of 16 bytes \<open>salt\<close>, 12 bytes \<open>nonce\<close> and a rest \<open>ct\<close> it succeeds exactly when
  the key derived from \<open>salt\<close> opens \<open>ct\<close> under \<open>nonce\<close> to a plaintext that parses.
\<close>

theorem save_file_is_salt_nonce_ciphertext:
  assumes "s_err (saveToFile L E fs store file pass) = None" and "gcm_nonce12 L"
  shows "(\<exists>salt nonce blob key c g.
            salt = map (rand_bytes E) [0 ..< 16] \<and> length salt = 16 \<and>
            nonce = map (rand_bytes E) [16 ..< 28] \<and> length nonce = 12 \<and>
            json_Marshal L (snapshot store) = Some blob \<and>
            deriveKey L (bytes_of pass) salt = Inr key \<and>
            aes_NewCipher L key = Some c \<and> cipher_NewGCM L c = Some g \<and>
            s_fs (saveToFile L E fs store file pass) file
              = Some (File (salt @ nonce @ gcm_Seal g nonce blob))) \<and>
         (\<forall>E' fs' store' pass' salt nonce ct.
            fs' file = Some (File (salt @ nonce @ ct)) \<and> \<not> read_fails E' \<and>
            length salt = 16 \<and> length nonce = 12 \<longrightarrow>
            (l_err (loadFromFile L E' fs' store' file pass') = None) =
            (\<exists>key c g pt m.
               deriveKey L (bytes_of pass') salt = Inr key \<and>
               aes_NewCipher L key = Some c \<and> cipher_NewGCM L c = Some g \<and>
               gcm_Open g nonce ct = Some pt \<and> json_Unmarshal L pt = Some m))"
proof (intro conjI allI impI)
  obtain blob key c g where
    blob: "json_Marshal L (snapshot store) = Some blob" and
    key: "deriveKey L (bytes_of pass) (map (rand_bytes E) [0 ..< 16]) = Inr key" and
    c: "aes_NewCipher L key = Some c" and g: "cipher_NewGCM L c = Some g" and
    out: "saveToFile L E fs store file pass =
       \<lparr>s_err = None,
        s_fs = fs(file \<mapsto> File (map (rand_bytes E) [0 ..< 16]
                  @ map (rand_bytes E) [16 ..< 16 + gcm_NonceSize g]
                  @ gcm_Seal g (map (rand_bytes E) [16 ..< 16 + gcm_NonceSize g]) blob)),
        s_blob = Some (zero_bytes blob), s_key = Some (zero_bytes key)\<rparr>"
    using save_ok_steps [OF assms(1)] by blast
  have ns: "gcm_NonceSize g = 12" using assms(2) g by (auto simp: gcm_nonce12_def)
  show "\<exists>salt nonce blob key c g.
            salt = map (rand_bytes E) [0 ..< 16] \<and> length salt = 16 \<and>
            nonce = map (rand_bytes E) [16 ..< 28] \<and> length nonce = 12 \<and>
            json_Marshal L (snapshot store) = Some blob \<and>
            deriveKey L (bytes_of pass) salt = Inr key \<and>
            aes_NewCipher L key = Some c \<and> cipher_NewGCM L c = Some g \<and>
            s_fs (saveToFile L E fs store file pass) file
              = Some (File (salt @ nonce @ gcm_Seal g nonce blob))"
    using blob key c g by (simp add: out ns)
next
  fix E' :: env and fs' :: fs and store' pass' and salt nonce ct :: bytes
  assume a: "fs' file = Some (File (salt @ nonce @ ct)) \<and> \<not> read_fails E' \<and>
            length salt = 16 \<and> length nonce = 12"
  show "(l_err (loadFromFile L E' fs' store' file pass') = None) =
            (\<exists>key c g pt m.
               deriveKey L (bytes_of pass') salt = Inr key \<and>
               aes_NewCipher L key = Some c \<and> cipher_NewGCM L c = Some g \<and>
               gcm_Open g nonce ct = Some pt \<and> json_Unmarshal L pt = Some m)"
    using a load_of_layout [of fs' "file" salt nonce ct E' L store' pass']
    by (auto split: sum.splits option.splits)
qed

theorem save_file_is_salt_nonce_ciphertext_witness:
  "s_err (saveToFile demo_lib demo_env Map.empty (set_kv newKV ''x'' ''42'') ''db'' ''good'') = None \<and>
   gcm_nonce12 demo_lib \<and>
   (\<exists>salt nonce blob key c g.
      salt = map (rand_bytes demo_env) [0 ..< 16] \<and> length salt = 16 \<and>
      nonce = map (rand_bytes demo_env) [16 ..< 28] \<and> length nonce = 12 \<and>
      json_Marshal demo_lib (snapshot (set_kv newKV ''x'' ''42'')) = Some blob \<and>
      deriveKey demo_lib (bytes_of ''good'') salt = Inr key \<and>
      aes_NewCipher demo_lib key = Some c \<and> cipher_NewGCM demo_lib c = Some g \<and>
      s_fs (saveToFile demo_lib demo_env Map.empty (set_kv newKV ''x'' ''42'') ''db'' ''good'') ''db''
        = Some (File (salt @ nonce @ gcm_Seal g nonce blob))) \<and>
   [''db'' \<mapsto> File (replicate 16 1 @ replicate 12 2 @ [3, 4])] ''db''
     = Some (File (replicate 16 1 @ replicate 12 2 @ [3, 4])) \<and>
   \<not> read_fails demo_env \<and> length (replicate 16 (1 :: byte)) = 16 \<and>
   length (replicate 12 (2 :: byte)) = 12 \<and>
   (l_err (loadFromFile demo_lib demo_env
        [''db'' \<mapsto> File (replicate 16 1 @ replicate 12 2 @ [3, 4])] newKV ''db'' ''good'') = None) =
   (\<exists>key c g pt m.
      deriveKey demo_lib (bytes_of ''good'') (replicate 16 1) = Inr key \<and>
      aes_NewCipher demo_lib key = Some c \<and> cipher_NewGCM demo_lib c = Some g \<and>
      gcm_Open g (replicate 12 2) [3, 4] = Some pt \<and> json_Unmarshal demo_lib pt = Some m)"
proof -
  have ok: "s_err (saveToFile demo_lib demo_env Map.empty (set_kv newKV ''x'' ''42'') ''db'' ''good'')
      = None"
    by (simp add: demo_save [OF _ demo_marshal_x42])
  have rd: "\<not> read_fails demo_env" by (simp add: demo_env_def)
  note th = save_file_is_salt_nonce_ciphertext [OF ok demo_nonce12]
  from th have "(l_err (loadFromFile demo_lib demo_env
        [''db'' \<mapsto> File (replicate 16 1 @ replicate 12 2 @ [3, 4])] newKV ''db'' ''good'') = None) =
   (\<exists>key c g pt m.
      deriveKey demo_lib (bytes_of ''good'') (replicate 16 1) = Inr key \<and>
      aes_NewCipher demo_lib key = Some c \<and> cipher_NewGCM demo_lib c = Some g \<and>
      gcm_Open g (replicate 12 2) [3, 4] = Some pt \<and> json_Unmarshal demo_lib pt = Some m)"
    using rd by simp
  with th ok demo_nonce12 rd show ?thesis by simp
qed

text \<open>
  Claim C1, as amended. For every store \<open>S\<close> whose snapshot the JSON encoding
  reproduces, every password, file system and path, every random salt and nonce (every
  environment \<open>E\<close>), and every store \<open>S0\<close> to load into: if \<open>saveToFile\<close> succeeds,
  then \<open>loadFromFile\<close> of the file it produced, under the same password, succeeds, and
  the store afterwards holds the same keys with the same values as \<open>S\<close>. The library
  is assumed to meet the contracts of the AEAD.

  The claim as stated is for every store. \<^verbatim>\<open>json.Marshal\<close> replaces every byte of a
  key or value that is not valid UTF-8 by U+FFFD, so such a store does not come back:
  the counterexample saves the value \<open>FF\<close> under the key \<open>k\<close> and loads \<open>EF BF BD\<close>.
\<close>

theorem save_then_load_restores_store:
  assumes "s_err (saveToFile L E fs S file P) = None"
    and "gcm_nonce12 L" and "gcm_opens_sealed L"
    and "json_reproduces L (snapshot S)"
    and "\<not> read_fails E'"
  shows "l_err (loadFromFile L E' (s_fs (saveToFile L E fs S file P)) S0 file P) = None \<and>
         data (l_store (loadFromFile L E' (s_fs (saveToFile L E fs S file P)) S0 file P)) = data S \<and>
         (\<forall>key. get (l_store (loadFromFile L E' (s_fs (saveToFile L E fs S file P)) S0 file P)) key
                 = get S key)"
proof -
  have "\<And>blob. json_Marshal L (snapshot S) = Some blob \<Longrightarrow>
          json_Unmarshal L blob = Some (snapshot S)"
    using assms(4) by (simp add: json_reproduces_def)
  from save_then_load [OF assms(1-3) this assms(5), of S0]
  show ?thesis
    by (auto simp: data_replace_snapshot get_replace_snapshot)
qed

theorem save_then_load_restores_store_witness:
  "s_err (saveToFile demo_lib demo_env Map.empty (set_kv newKV ''x'' ''42'') ''db'' ''secret'') = None \<and>
   gcm_nonce12 demo_lib \<and> gcm_opens_sealed demo_lib \<and>
   json_reproduces demo_lib (snapshot (set_kv newKV ''x'' ''42'')) \<and>
   \<not> read_fails demo_env \<and>
   l_err (loadFromFile demo_lib demo_env
     (s_fs (saveToFile demo_lib demo_env Map.empty (set_kv newKV ''x'' ''42'') ''db'' ''secret''))
     newKV ''db'' ''secret'') = None \<and>
   get (l_store (loadFromFile demo_lib demo_env
     (s_fs (saveToFile demo_lib demo_env Map.empty (set_kv newKV ''x'' ''42'') ''db'' ''secret''))
     newKV ''db'' ''secret'')) ''x'' = (''42'', True)"
proof -
  have ok: "s_err (saveToFile demo_lib demo_env Map.empty (set_kv newKV ''x'' ''42'') ''db'' ''secret'')
      = None"
    by (simp add: demo_save [OF _ demo_marshal_x42])
  have rd: "\<not> read_fails demo_env" by (simp add: demo_env_def)
  have js: "json_reproduces demo_lib (snapshot (set_kv newKV ''x'' ''42''))"
    unfolding json_reproduces_def demo_marshal_x42
    by (simp add: demo_unmarshal_x42 snapshot_set_kv snapshot_newKV)
  show ?thesis
    using save_then_load_restores_store [OF ok demo_nonce12 demo_opens_sealed js rd, of newKV]
      ok demo_nonce12 demo_opens_sealed js rd
    by (simp add: get_set_kv_same)
qed

lemma demo_marshal_kff:
  "json_Marshal demo_lib (snapshot (set_kv newKV ''k'' [CHR 0xFF])) = Some [1, 107, 3, 239, 191, 189]"
  by (simp add: snapshot_set_kv snapshot_newKV demo_eval)

lemma demo_unmarshal_kff:
  "json_Unmarshal demo_lib [1, 107, 3, 239, 191, 189] = Some [''k'' \<mapsto> [CHR 0xEF, CHR 0xBF, CHR 0xBD]]"
  by (simp add: demo_eval)

theorem save_then_load_changes_invalid_utf8_counterexample:
  "s_err (saveToFile demo_lib demo_env Map.empty (set_kv newKV ''k'' [CHR 0xFF]) ''db'' ''secret'') = None \<and>
   l_err (loadFromFile demo_lib demo_env
     (s_fs (saveToFile demo_lib demo_env Map.empty (set_kv newKV ''k'' [CHR 0xFF]) ''db'' ''secret''))
     newKV ''db'' ''secret'') = None \<and>
   get (set_kv newKV ''k'' [CHR 0xFF]) ''k'' = ([CHR 0xFF], True) \<and>
   get (l_store (loadFromFile demo_lib demo_env
     (s_fs (saveToFile demo_lib demo_env Map.empty (set_kv newKV ''k'' [CHR 0xFF]) ''db'' ''secret''))
     newKV ''db'' ''secret'')) ''k'' = ([CHR 0xEF, CHR 0xBF, CHR 0xBD], True)"
proof -
  let ?S = "set_kv newKV ''k'' [CHR 0xFF]"
  have ok: "s_err (saveToFile demo_lib demo_env Map.empty ?S ''db'' ''secret'') = None"
    by (simp add: demo_save [OF _ demo_marshal_kff])
  have rd: "\<not> read_fails demo_env" by (simp add: demo_env_def)
  have um: "\<And>blob. json_Marshal demo_lib (snapshot ?S) = Some blob \<Longrightarrow>
      json_Unmarshal demo_lib blob = Some [''k'' \<mapsto> [CHR 0xEF, CHR 0xBF, CHR 0xBD]]"
    by (simp add: demo_marshal_kff demo_unmarshal_kff)
  obtain pt key where
    "loadFromFile demo_lib demo_env (s_fs (saveToFile demo_lib demo_env Map.empty ?S ''db'' ''secret''))
       newKV ''db'' ''secret''
     = \<lparr>l_err = None, l_store = replace newKV [''k'' \<mapsto> [CHR 0xEF, CHR 0xBF, CHR 0xBD]],
        l_pt = Some (zero_bytes pt), l_key = Some (zero_bytes key)\<rparr>"
    using save_then_load [OF ok demo_nonce12 demo_opens_sealed um rd, of newKV] by blast
  moreover have "get (replace newKV [''k'' \<mapsto> [CHR 0xEF, CHR 0xBF, CHR 0xBD]]) ''k''
      = ([CHR 0xEF, CHR 0xBF, CHR 0xBD], True)"
    by (simp add: get_def data_replace)
  moreover have "get ?S ''k'' = ([CHR 0xFF], True)"
    by (rule get_set_kv_same)
  ultimately show ?thesis
    using ok by simp
qed

section \<open>The words of a line\<close>

lemma space_runes_shape:
  "q \<in> set space_runes \<Longrightarrow>
     q \<noteq> [] \<and> \<not> utf8_cont (hd q) \<and> (\<forall>c \<in> set (tl q). utf8_cont c) \<and> length q = rune_len (hd q)"
  unfolding space_runes_def utf8_cont_def rune_len_def
  by (elim disjE | simp)+

lemma space_width_zero_iff:
  "space_width s = 0 \<longleftrightarrow> (\<forall>q \<in> set space_runes. take (length q) s \<noteq> q)"
proof
  assume z: "space_width s = 0"
  show "\<forall>q \<in> set space_runes. take (length q) s \<noteq> q"
  proof
    fix q assume q: "q \<in> set space_runes"
    show "take (length q) s \<noteq> q"
    proof
      assume "take (length q) s = q"
      with q have "find (\<lambda>p. take (length p) s = p) space_runes \<noteq> None"
        by (auto simp: find_None_iff)
      then obtain p where p: "find (\<lambda>p. take (length p) s = p) space_runes = Some p" by auto
      then have "p \<in> set space_runes"
        by (auto simp: find_Some_iff)
      then have "p \<noteq> []" using space_runes_shape by blast
      with z p show False by (simp add: space_width_def)
    qed
  qed
next
  assume "\<forall>q \<in> set space_runes. take (length q) s \<noteq> q"
  then have "find (\<lambda>p. take (length p) s = p) space_runes = None"
    by (auto simp: find_None_iff)
  then show "space_width s = 0" by (simp add: space_width_def)
qed

lemma space_width_unique:
  assumes q: "q \<in> set space_runes" and pre: "take (length q) s = q"
  shows "space_width s = length q"
proof -
  from q pre have "find (\<lambda>p. take (length p) s = p) space_runes \<noteq> None"
    by (auto simp: find_None_iff)
  then obtain p where p: "find (\<lambda>p. take (length p) s = p) space_runes = Some p" by auto
  then have pin: "p \<in> set space_runes" and pp: "take (length p) s = p"
    by (auto simp: find_Some_iff)
  have qn: "q \<noteq> []" and pn: "p \<noteq> []" using space_runes_shape q pin by blast+
  have "hd p = hd s" using pp pn by (metis hd_take length_greater_0_conv)
  moreover have "hd q = hd s" using pre qn by (metis hd_take length_greater_0_conv)
  ultimately have "length p = length q"
    using space_runes_shape [OF q] space_runes_shape [OF pin] by simp
  then show ?thesis using p by (simp add: space_width_def)
qed

lemma space_width_pos:
  assumes "space_width s \<noteq> 0"
  shows "take (space_width s) s \<in> set space_runes \<and> space_width s \<le> length s"
proof -
  from assms obtain p where p: "find (\<lambda>p. take (length p) s = p) space_runes = Some p"
    by (auto simp: space_width_def split: option.splits)
  then have pin: "p \<in> set space_runes" and pp: "take (length p) s = p"
    by (auto simp: find_Some_iff)
  have "length p \<le> length s" using pp by (metis length_take min.cobounded1)
  with p pin pp show ?thesis by (simp add: space_width_def)
qed

lemma space_width_append_pos:
  assumes "space_width s \<noteq> 0"
  shows "space_width (s @ rest) = space_width s"
proof -
  let ?q = "take (space_width s) s"
  have q: "?q \<in> set space_runes" and le: "space_width s \<le> length s"
    using space_width_pos [OF assms] by simp_all
  have "take (length ?q) (s @ rest) = ?q" using le by simp
  from space_width_unique [OF q this] show ?thesis using le by simp
qed

lemma space_width_append_zero:
  assumes z: "space_width t = 0" and t: "t \<noteq> []"
    and r: "rest = [] \<or> \<not> utf8_cont (hd rest)"
  shows "space_width (t @ rest) = 0"
  unfolding space_width_zero_iff
proof
  fix q assume q: "q \<in> set space_runes"
  show "take (length q) (t @ rest) \<noteq> q"
  proof
    assume pre: "take (length q) (t @ rest) = q"
    show False
    proof (cases "length q \<le> length t")
      case True
      then have "take (length q) t = q" using pre by simp
      with z q show False by (simp add: space_width_zero_iff)
    next
      case False
      then have lt: "length t < length q" by simp
      have "length q \<le> length (t @ rest)" using pre by (metis length_take min.cobounded1)
      then have rn: "rest \<noteq> []" using lt by auto
      have "q ! length t = (t @ rest) ! length t"
        using pre lt by (metis nth_take)
      then have "q ! length t = hd rest" using rn by (simp add: nth_append hd_conv_nth)
      moreover have "q ! length t \<in> set (tl q)"
      proof -
        obtain n where n: "length t = Suc n" using t by (cases t) auto
        obtain a q' where qq: "q = a # q'" using lt by (cases q) auto
        then have "n < length q'" using lt n by simp
        then have "q' ! n \<in> set q'" by (rule nth_mem)
        then show ?thesis using n qq by simp
      qed
      ultimately have "utf8_cont (hd rest)" using space_runes_shape [OF q] by auto
      with r rn show False by simp
    qed
  qed
qed

lemma space_width_Nil [simp]: "space_width [] = 0"
  using space_runes_shape by (auto simp: space_width_zero_iff)

lemma fields_from_trim_left: "fields_from [] (trim_left s) = fields_from [] s"
proof (induction s rule: trim_left.induct)
  case 1
  show ?case by simp
next
  case (2 c cs)
  show ?case
  proof (cases "space_width (c # cs) = 0")
    case True
    then show ?thesis by simp
  next
    case False
    with 2 show ?thesis by (simp add: Let_def)
  qed
qed

lemma space_width_append_rune:
  assumes "p \<in> set space_runes" and "t \<noteq> []"
  shows "space_width (t @ p) = space_width t"
proof (cases "space_width t = 0")
  case True
  have "\<not> utf8_cont (hd p)" using space_runes_shape [OF assms(1)] by simp
  then show ?thesis using True assms(2) by (simp add: space_width_append_zero)
next
  case False
  then show ?thesis by (rule space_width_append_pos)
qed

lemma space_width_rune:
  assumes "p \<in> set space_runes"
  shows "space_width (p @ rest) = length p"
  by (rule space_width_unique [OF assms]) simp

lemma drop_append_le: "n \<le> length xs \<Longrightarrow> drop n (xs @ ys) = drop n xs @ ys"
  by simp

lemma fields_from_append_rune:
  assumes p: "p \<in> set space_runes"
  shows "fields_from cur (t @ p) = fields_from cur t"
proof (induction cur t rule: fields_from.induct)
  case (1 cur)
  have pn: "p \<noteq> []" using space_runes_shape [OF p] by simp
  then obtain c cs where pc: "p = c # cs" by (cases p) auto
  have "space_width (c # cs) = length (c # cs)"
    using space_width_rune [OF p, of "[]"] pc by simp
  then show ?case using pc by (simp add: Let_def)
next
  case (2 cur c cs)
  have sw: "space_width ((c # cs) @ p) = space_width (c # cs)"
    by (rule space_width_append_rune [OF p]) simp
  show ?case
  proof (cases "space_width (c # cs) = 0")
    case True
    with 2 sw show ?thesis by (simp add: Let_def)
  next
    case False
    then have le: "space_width (c # cs) \<le> length (c # cs)"
      using space_width_pos [of "c # cs"] by simp
    have "drop (space_width (c # cs)) ((c # cs) @ p) = drop (space_width (c # cs)) (c # cs) @ p"
      using le by (rule drop_append_le)
    moreover have "fields_from [] (drop (space_width (c # cs)) (c # cs) @ p)
        = fields_from [] (drop (space_width (c # cs)) (c # cs))"
      using False by (intro "2.IH"(2)) simp_all
    ultimately show ?thesis
      using False sw by (simp add: Let_def del: drop_append)
  qed
qed

lemma space_width_end_pos:
  assumes "space_width_end s \<noteq> 0"
  shows "drop (length s - space_width_end s) s \<in> set space_runes \<and> space_width_end s \<le> length s"
proof -
  from assms obtain p where
    p: "find (\<lambda>p. length p \<le> length s \<and> drop (length s - length p) s = p) space_runes = Some p"
    by (auto simp: space_width_end_def split: option.splits)
  then have "p \<in> set space_runes" "length p \<le> length s" "drop (length s - length p) s = p"
    by (auto simp: find_Some_iff)
  with p show ?thesis by (simp add: space_width_end_def)
qed

lemma fields_from_trim_right: "fields_from [] (trim_right s) = fields_from [] s"
proof (induction s rule: trim_right.induct)
  case 1
  show ?case by simp
next
  case (2 c cs)
  let ?s = "c # cs"
  let ?n = "space_width_end ?s"
  show ?case
  proof (cases "?n = 0")
    case True
    then show ?thesis by simp
  next
    case False
    have p: "drop (length ?s - ?n) ?s \<in> set space_runes"
      using space_width_end_pos [OF False] by simp
    have "fields_from [] (take (length ?s - ?n) ?s @ drop (length ?s - ?n) ?s)
          = fields_from [] (take (length ?s - ?n) ?s)"
      by (rule fields_from_append_rune [OF p])
    then have "fields_from [] ?s = fields_from [] (take (length ?s - ?n) ?s)"
      by (simp only: append_take_drop_id)
    moreover have "fields_from [] (trim_right (take (length ?s - ?n) ?s))
          = fields_from [] (take (length ?s - ?n) ?s)"
      using False by (intro "2.IH") simp_all
    moreover have "trim_right ?s = trim_right (take (length ?s - ?n) ?s)"
      using False by (simp add: Let_def)
    ultimately show ?thesis by simp
  qed
qed

lemma Fields_TrimSpace: "Fields (TrimSpace s) = Fields s"
  by (simp add: Fields_def TrimSpace_def fields_from_trim_right fields_from_trim_left)

lemma fields_from_word:
  "no_space w \<Longrightarrow> rest = [] \<or> \<not> utf8_cont (hd rest) \<Longrightarrow>
   fields_from cur (w @ rest) = fields_from (cur @ w) rest"
proof (induction w arbitrary: cur)
  case Nil
  show ?case by simp
next
  case (Cons c cs)
  have "space_width ((c # cs) @ rest) = 0"
    using Cons.prems by (intro space_width_append_zero) simp_all
  then have "fields_from cur ((c # cs) @ rest) = fields_from (cur @ [c]) (cs @ rest)"
    by (simp add: Let_def)
  also have "\<dots> = fields_from ((cur @ [c]) @ cs) rest"
    using Cons.prems by (intro Cons.IH) simp_all
  finally show ?case by simp
qed

lemma is_ws_hd:
  assumes "is_ws s" and "s \<noteq> []"
  shows "\<not> utf8_cont (hd s)"
proof -
  obtain c cs where s: "s = c # cs" using assms(2) by (cases s) auto
  have nz: "space_width s \<noteq> 0"
    using assms(1) s by (auto simp: is_ws_def Let_def split: if_splits)
  then have q: "take (space_width s) s \<in> set space_runes"
    using space_width_pos by blast
  have "hd (take (space_width s) s) = hd s"
    using nz by (metis hd_take neq0_conv)
  then show ?thesis using space_runes_shape [OF q] by simp
qed

lemma fields_from_ws:
  "is_ws s \<Longrightarrow>
   fields_from cur (s @ rest) =
     (if s = [] then fields_from cur rest
      else (if cur = [] then [] else [cur]) @ fields_from [] rest)"
proof (induction s arbitrary: cur rule: trim_left.induct)
  case 1
  show ?case by simp
next
  case (2 c cs)
  let ?s = "c # cs"
  have nz: "space_width ?s \<noteq> 0"
    using "2.prems" by (auto simp: is_ws_def Let_def split: if_splits)
  then have le: "space_width ?s \<le> length ?s" using space_width_pos by blast
  have ws': "is_ws (drop (space_width ?s) ?s)"
    using "2.prems" nz by (simp add: is_ws_def Let_def)
  have sw: "space_width (?s @ rest) = space_width ?s"
    by (rule space_width_append_pos [OF nz])
  have dr: "drop (space_width ?s) (?s @ rest) = drop (space_width ?s) ?s @ rest"
    using le by (rule drop_append_le)
  have "fields_from [] (drop (space_width ?s) ?s @ rest) = fields_from [] rest"
    using "2.IH" [OF refl nz ws', of "[]"] by (simp split: if_splits)
  then have "fields_from cur (?s @ rest)
      = (if cur = [] then [] else [cur]) @ fields_from [] rest"
    using nz sw dr by (simp add: Let_def del: drop_append)
  then show ?case by simp
qed

lemma fields_from_layout:
  "well_spaced ps \<Longrightarrow> fields_from [] (layout ps) = map fst ps"
proof (induction ps rule: layout.induct)
  case 1
  show ?case by simp
next
  case (2 w s r)
  then have w: "w \<noteq> []" "no_space w" and s: "is_ws s" and sr: "s = [] \<longrightarrow> r = []"
    and r: "well_spaced r"
    by (simp_all add: is_word_def)
  have rest: "s @ layout r = [] \<or> \<not> utf8_cont (hd (s @ layout r))"
  proof (cases "s = []")
    case True
    with sr show ?thesis by simp
  next
    case False
    with is_ws_hd [OF s] show ?thesis by simp
  qed
  have "fields_from [] (w @ s @ layout r) = fields_from w (s @ layout r)"
    using fields_from_word [OF w(2) rest, of "[]"] by simp
  also have "\<dots> = w # map fst r"
  proof (cases "s = []")
    case True
    with sr w show ?thesis by simp
  next
    case False
    then show ?thesis using fields_from_ws [OF s, of w "layout r"] w "2.IH" [OF r] by simp
  qed
  finally show ?case by simp
qed

lemma Fields_layout:
  assumes "is_ws pre" and "well_spaced ps"
  shows "Fields (TrimSpace (pre @ layout ps)) = map fst ps"
proof -
  have "fields_from [] (pre @ layout ps) = fields_from [] (layout ps)"
    using fields_from_ws [OF assms(1), of "[]" "layout ps"] by simp
  then have "Fields (pre @ layout ps) = map fst ps"
    using fields_from_layout [OF assms(2)] by (simp add: Fields_def)
  then show ?thesis by (simp only: Fields_TrimSpace)
qed

lemma is_ws_Nil [simp]: "is_ws []"
  by (simp add: is_ws_def)

lemma is_ws_rune_append:
  assumes p: "p \<in> set space_runes" and x: "is_ws x"
  shows "is_ws (p @ x)"
proof -
  have pn: "p \<noteq> []" using space_runes_shape [OF p] by simp
  then obtain c cs where pc: "p @ x = c # cs" by (cases p) auto
  have sw: "space_width (c # cs) = length p"
    using space_width_rune [OF p, of x] pc by simp
  have dr: "drop (length p) (c # cs) = x"
    using pc [symmetric] by simp
  have "trim_left (c # cs) = trim_left x"
    using sw pn dr by (simp add: Let_def)
  then show ?thesis using x pc by (simp add: is_ws_def)
qed

lemma trim_left_split:
  "\<exists>pre. is_ws pre \<and> s = pre @ trim_left s \<and>
         (trim_left s = [] \<or> space_width (trim_left s) = 0) \<and>
         (space_width s \<noteq> 0 \<longrightarrow> pre \<noteq> [])"
proof (induction s rule: trim_left.induct)
  case 1
  show ?case by simp
next
  case (2 c cs)
  let ?s = "c # cs"
  show ?case
  proof (cases "space_width ?s = 0")
    case True
    then show ?thesis by (intro exI [of _ "[]"]) simp
  next
    case False
    then have q: "take (space_width ?s) ?s \<in> set space_runes"
      using space_width_pos by blast
    have qn: "take (space_width ?s) ?s \<noteq> []"
      using space_runes_shape [OF q] by simp
    let ?r = "drop (space_width ?s) ?s"
    have tl: "trim_left ?s = trim_left ?r" using False by (simp add: Let_def)
    from "2.IH" [OF refl False] obtain pre where
      pre: "is_ws pre" "?r = pre @ trim_left ?r"
        "trim_left ?r = [] \<or> space_width (trim_left ?r) = 0"
      by blast
    have "is_ws (take (space_width ?s) ?s @ pre)"
      by (rule is_ws_rune_append [OF q pre(1)])
    moreover have "?s = (take (space_width ?s) ?s @ pre) @ trim_left ?s"
      using pre(2) tl by (metis append.assoc append_take_drop_id)
    moreover have "take (space_width ?s) ?s @ pre \<noteq> []" using qn by simp
    ultimately show ?thesis using pre(3) tl by metis
  qed
qed

lemma word_split_props:
  "s = fst (word_split s) @ snd (word_split s) \<and> no_space (fst (word_split s)) \<and>
   (snd (word_split s) = [] \<or> space_width (snd (word_split s)) \<noteq> 0)"
proof (induction s)
  case Nil
  show ?case by simp
next
  case (Cons c cs)
  show ?case
  proof (cases "space_width (c # cs) = 0")
    case False
    then show ?thesis by simp
  next
    case True
    have "space_width (c # fst (word_split cs)) = 0"
    proof (rule ccontr)
      assume nz: "space_width (c # fst (word_split cs)) \<noteq> 0"
      have "space_width ((c # fst (word_split cs)) @ snd (word_split cs))
            = space_width (c # fst (word_split cs))"
        by (rule space_width_append_pos [OF nz])
      with nz True Cons show False by simp
    qed
    with True Cons show ?thesis by simp
  qed
qed

lemma layout_exists:
  "s = [] \<or> space_width s = 0 \<Longrightarrow> \<exists>ps. well_spaced ps \<and> s = layout ps"
proof (induction "length s" arbitrary: s rule: less_induct)
  case less
  show ?case
  proof (cases "s = []")
    case True
    then show ?thesis by (intro exI [of _ "[]"]) simp
  next
    case False
    with less.prems have z: "space_width s = 0" by simp
    obtain c cs where s: "s = c # cs" using False by (cases s) auto
    let ?w = "fst (word_split s)" and ?r = "snd (word_split s)"
    have sp: "s = ?w @ ?r" and nw: "no_space ?w" and rr: "?r = [] \<or> space_width ?r \<noteq> 0"
      using word_split_props [of s] by simp_all
    have wn: "?w \<noteq> []" using z s by simp
    then have w: "is_word ?w" using nw by (simp add: is_word_def)
    obtain sep where sep: "is_ws sep" "?r = sep @ trim_left ?r"
        "trim_left ?r = [] \<or> space_width (trim_left ?r) = 0"
        "space_width ?r \<noteq> 0 \<longrightarrow> sep \<noteq> []"
      using trim_left_split [of ?r] by blast
    have "length (trim_left ?r) < length s"
    proof -
      have "length (trim_left ?r) \<le> length ?r" using sep(2) by (metis length_append le_add2)
      moreover have "length ?r < length s" using sp wn
        by (metis length_append length_greater_0_conv less_add_same_cancel2)
      ultimately show ?thesis by simp
    qed
    from less.hyps [OF this sep(3)] obtain ps where
      ps: "well_spaced ps" "trim_left ?r = layout ps" by blast
    have se: "sep = [] \<longrightarrow> ps = []"
    proof
      assume e: "sep = []"
      with sep(4) have "space_width ?r = 0" by auto
      with rr have "?r = []" by auto
      with sep(2) e have "trim_left ?r = []" by simp
      with ps show "ps = []" by (cases ps) (auto simp: is_word_def)
    qed
    have "well_spaced ((?w, sep) # ps)" using w sep(1) se ps(1) by simp
    moreover have "s = layout ((?w, sep) # ps)"
      using sp sep(2) ps(2) by (metis layout.simps(2))
    ultimately show ?thesis by blast
  qed
qed

lemma line_layout:
  "\<exists>pre ps. is_ws pre \<and> well_spaced ps \<and> line = pre @ layout ps"
proof -
  obtain pre where pre: "is_ws pre" "line = pre @ trim_left line"
      "trim_left line = [] \<or> space_width (trim_left line) = 0"
    using trim_left_split [of line] by blast
  from layout_exists [OF pre(3)] obtain ps where
    "well_spaced ps" "trim_left line = layout ps" by blast
  with pre show ?thesis by metis
qed

lemma handle_set_fields:
  assumes "Fields (TrimSpace line) = verb # args" and "ToUpper verb = ''SET''"
  shows "handle_line L E (fs, store) line =
           (if length args < 2 then Inr ((fs, store), println ''ERR'')
            else Inr ((fs, set_kv store (hd args) (Join (tl args) '' '')), println ''OK''))"
proof (cases "length args < 2")
  case True
  then show ?thesis using assms by (simp add: handle_line_def Let_def)
next
  case False
  then obtain key rest where a: "args = key # rest" by (cases args) auto
  have d: "drop 2 (verb # key # rest) = rest" by simp
  show ?thesis
    using False assms a by (simp add: handle_line_def Let_def)
qed

section \<open>Claims about the line protocol\<close>

lemmas strings_eval =
  Fields_def TrimSpace_def space_width_def space_width_end_def space_runes_def upper_ascii_def
  println_def

text \<open>
  Claim C3, as amended. Every line is some white space followed by words, each followed by
  white space that is not empty between two words. For every line whose first word is
  \<open>SET\<close> in any case: when at least two words follow it (a SET line with at least two
  arguments), \<open>handle\<close> stores under the key, the first of them, the words after the key
  joined by single spaces, answers \<open>OK\<close>, and a \<open>get\<close> of the key returns that value;
  when fewer than two words follow it, \<open>handle\<close> answers \<open>ERR\<close> and the store is
  unchanged.

  The claim as stated says the value is the remainder of the line exactly as it appeared.
  The counterexample is the line \<open>SET k a  b\<close> with two spaces between \<open>a\<close> and \<open>b\<close>:
  the value stored is \<open>a b\<close> with one.
\<close>

theorem handle_set_stores_joined_words:
  "(\<exists>pre ps. is_ws pre \<and> well_spaced ps \<and> line = pre @ layout ps) \<and>
   (\<forall>pre ps verb args.
      is_ws pre \<and> well_spaced ps \<and> line = pre @ layout ps \<and>
      map fst ps = verb # args \<and> ToUpper verb = ''SET'' \<longrightarrow>
      (2 \<le> length args \<longrightarrow>
         handle_line L E (fs, store) line
           = Inr ((fs, set_kv store (hd args) (Join (tl args) '' '')), println ''OK'') \<and>
         get (set_kv store (hd args) (Join (tl args) '' '')) (hd args)
           = (Join (tl args) '' '', True)) \<and>
      (length args < 2 \<longrightarrow>
         handle_line L E (fs, store) line = Inr ((fs, store), println ''ERR'')))"
proof (intro conjI allI impI)
  show "\<exists>pre ps. is_ws pre \<and> well_spaced ps \<and> line = pre @ layout ps"
    by (rule line_layout)
next
  fix pre ps verb args
  assume a: "is_ws pre \<and> well_spaced ps \<and> line = pre @ layout ps \<and>
      map fst ps = verb # args \<and> ToUpper verb = ''SET''"
  then have f: "Fields (TrimSpace line) = verb # args"
    using Fields_layout [of pre ps] by simp
  note h = handle_set_fields [OF f, of L E fs store]
  {
    assume "2 \<le> length args"
    then show "handle_line L E (fs, store) line
           = Inr ((fs, set_kv store (hd args) (Join (tl args) '' '')), println ''OK'')"
      using h a by simp
  next
    show "get (set_kv store (hd args) (Join (tl args) '' '')) (hd args)
           = (Join (tl args) '' '', True)"
      by (rule get_set_kv_same)
  next
    assume "length args < 2"
    then show "handle_line L E (fs, store) line = Inr ((fs, store), println ''ERR'')"
      using h a by simp
  }
qed

lemmas layout_eval =
  is_ws_def is_word_def space_width_def space_width_end_def space_runes_def upper_ascii_def
  println_def

theorem handle_set_stores_joined_words_witness:
  "is_ws [] \<and>
   well_spaced [(''SET'', '' ''), (''k'', '' ''), (''a'', ''  ''), (''b'', [CHR 0x0A])] \<and>
   ''SET k a  b'' @ [CHR 0x0A]
     = [] @ layout [(''SET'', '' ''), (''k'', '' ''), (''a'', ''  ''), (''b'', [CHR 0x0A])] \<and>
   map fst [(''SET'', '' ''), (''k'', '' ''), (''a'', ''  ''), (''b'', [CHR 0x0A])]
     = ''SET'' # [''k'', ''a'', ''b''] \<and>
   ToUpper ''SET'' = ''SET'' \<and> 2 \<le> length [''k'', ''a'', ''b''] \<and>
   handle_line demo_lib demo_env (Map.empty, newKV) (''SET k a  b'' @ [CHR 0x0A])
     = Inr ((Map.empty, set_kv newKV ''k'' ''a b''), println ''OK'') \<and>
   get (set_kv newKV ''k'' ''a b'') ''k'' = (''a b'', True) \<and>
   is_ws [CHR 0x09] \<and> well_spaced [(''set'', '' ''), (''k'', [CHR 0x0D, CHR 0x0A])] \<and>
   [CHR 0x09] @ ''set k'' @ [CHR 0x0D, CHR 0x0A]
     = [CHR 0x09] @ layout [(''set'', '' ''), (''k'', [CHR 0x0D, CHR 0x0A])] \<and>
   map fst [(''set'', '' ''), (''k'', [CHR 0x0D, CHR 0x0A])] = ''set'' # [''k''] \<and>
   ToUpper ''set'' = ''SET'' \<and> length [''k''] < 2 \<and>
   handle_line demo_lib demo_env (Map.empty, set_kv newKV ''k'' ''v'')
       ([CHR 0x09] @ ''set k'' @ [CHR 0x0D, CHR 0x0A])
     = Inr ((Map.empty, set_kv newKV ''k'' ''v''), println ''ERR'')"
proof -
  have w1: "is_ws []"
    "well_spaced [(''SET'', '' ''), (''k'', '' ''), (''a'', ''  ''), (''b'', [CHR 0x0A])]"
    and w2: "is_ws [CHR 0x09]" "well_spaced [(''set'', '' ''), (''k'', [CHR 0x0D, CHR 0x0A])]"
    by (simp_all add: layout_eval)
  have l1: "''SET k a  b'' @ [CHR 0x0A]
     = [] @ layout [(''SET'', '' ''), (''k'', '' ''), (''a'', ''  ''), (''b'', [CHR 0x0A])]"
    and l2: "[CHR 0x09] @ ''set k'' @ [CHR 0x0D, CHR 0x0A]
     = [CHR 0x09] @ layout [(''set'', '' ''), (''k'', [CHR 0x0D, CHR 0x0A])]"
    by simp_all
  have u: "ToUpper ''SET'' = ''SET''" "ToUpper ''set'' = ''SET''"
    by (simp_all add: upper_ascii_def)
  note t1 = handle_set_stores_joined_words [of "''SET k a  b'' @ [CHR 0x0A]" demo_lib demo_env
      Map.empty newKV, THEN conjunct2, rule_format,
      of "[]" "[(''SET'', '' ''), (''k'', '' ''), (''a'', ''  ''), (''b'', [CHR 0x0A])]"
         "''SET''" "[''k'', ''a'', ''b'']"]
  note t2 = handle_set_stores_joined_words [of "[CHR 0x09] @ ''set k'' @ [CHR 0x0D, CHR 0x0A]"
      demo_lib demo_env Map.empty "set_kv newKV ''k'' ''v''", THEN conjunct2, rule_format,
      of "[CHR 0x09]" "[(''set'', '' ''), (''k'', [CHR 0x0D, CHR 0x0A])]" "''set''" "[''k'']"]
  have r1: "handle_line demo_lib demo_env (Map.empty, newKV) (''SET k a  b'' @ [CHR 0x0A])
     = Inr ((Map.empty, set_kv newKV ''k'' ''a b''), println ''OK'')"
    using t1 w1 l1 u by simp
  have r2: "handle_line demo_lib demo_env (Map.empty, set_kv newKV ''k'' ''v'')
       ([CHR 0x09] @ ''set k'' @ [CHR 0x0D, CHR 0x0A])
     = Inr ((Map.empty, set_kv newKV ''k'' ''v''), println ''ERR'')"
    using t2 w2 l2 u by simp
  show ?thesis
    using w1 w2 l1 l2 u r1 r2 by (simp add: get_set_kv_same)
qed

theorem handle_set_collapses_spaces_counterexample:
  "handle_line demo_lib demo_env (Map.empty, newKV) (''SET k a  b'' @ [CHR 0x0A])
     = Inr ((Map.empty, set_kv newKV ''k'' ''a b''), println ''OK'') \<and>
   get (set_kv newKV ''k'' ''a b'') ''k'' = (''a b'', True) \<and>
   ''a b'' \<noteq> ''a  b''"
  by (simp add: handle_line_def strings_eval get_set_kv_same)

end
